theory Spec2Isabelle
  imports Main "HOL-Library.Sublist" "HOL-Library.Code_Target_Nat"
begin

section \<open>Text and the regular-expression engine\<close>

text \<open>
  Both scripts work on Python \<open>str\<close> values: sequences of Unicode code points. A code
  point is modelled as a natural number and a Python string as a list of them (type
  \<open>ustr\<close>), so that the theorems below speak about every input and not only about
  8-bit ones. \<open>str\<close> turns an Isabelle string literal into such a list.
\<close>

type_synonym codepoint = nat
type_synonym ustr = "codepoint list"

definition str :: "string \<Rightarrow> ustr" where
  "str s = map of_char s"

definition LF :: codepoint where "LF = 10"
definition CR :: codepoint where "CR = 13"

text \<open>
  The two patterns of the repository use only literals, greedy stars over a character
  class (\<open>[^}]*\<close>, \<open>[^,\n]*\<close>, \<open>\s*\<close>), one greedy optional literal (\<open>,?\<close>) and two
  capture groups that together cover the whole pattern. An \<open>item\<close> is one such piece;
  a \<open>regex\<close> is the pair of item lists of group 1 and group 2.
\<close>

datatype item = Lit ustr | Star "codepoint \<Rightarrow> bool" | Opt ustr

type_synonym regex = "item list \<times> item list"

text \<open>
  \<open>match_items\<close> is the backtracking matcher of Python's \<open>re\<close>, anchored at the start of
  its input. It returns the characters consumed by each item of the first match in the
  engine's priority order: a greedy star takes one more character whenever the rest of
  the pattern can still be matched after doing so, and gives characters back only when
  it cannot; a greedy optional literal is tried present first, absent second.
  \<open>cons_first\<close> adds a character to the first part, the one the star is consuming.
\<close>

fun cons_first :: "codepoint \<Rightarrow> ustr list \<Rightarrow> ustr list" where
  "cons_first c [] = [[c]]"
| "cons_first c (a # ps) = (c # a) # ps"

fun match_items :: "item list \<Rightarrow> ustr \<Rightarrow> ustr list option" where
  "match_items [] s = Some []"
| "match_items (Lit l # r) s =
     (if take (length l) s = l
      then map_option ((#) l) (match_items r (drop (length l) s))
      else None)"
| "match_items (Opt l # r) s =
     (case (if take (length l) s = l
            then map_option ((#) l) (match_items r (drop (length l) s))
            else None) of
        Some ps \<Rightarrow> Some ps
      | None \<Rightarrow> map_option ((#) []) (match_items r s))"
| "match_items (Star p # r) [] = map_option ((#) []) (match_items r [])"
| "match_items (Star p # r) (c # cs) =
     (case (if p c then match_items (Star p # r) cs else None) of
        Some ps \<Rightarrow> Some (cons_first c ps)
      | None \<Rightarrow> map_option ((#) []) (match_items r (c # cs)))"

text \<open>\<open>re_match\<close> is \<open>pattern.match\<close>: the pair (\<open>group(1)\<close>, \<open>group(2)\<close>) of the match
  that starts at the beginning of the input, if there is one.\<close>

definition re_match :: "regex \<Rightarrow> ustr \<Rightarrow> (ustr \<times> ustr) option" where
  "re_match rx s =
     (case match_items (fst rx @ snd rx) s of
        None \<Rightarrow> None
      | Some ps \<Rightarrow> Some (concat (take (length (fst rx)) ps),
                         concat (drop (length (fst rx)) ps)))"

text \<open>
  \<open>re_sub\<close> is \<open>re.sub(pattern, repl, string)\<close> with a function \<open>repl\<close>: the input is
  scanned from left to right; at the leftmost position where the pattern matches, the
  match is replaced by \<open>repl\<close> of its groups and the scan goes on behind the match.
  Both patterns start with a literal, so a match is never empty; the branch for an
  empty match (copy one character and go on) only makes the function total.
\<close>

function re_sub :: "regex \<Rightarrow> (ustr \<times> ustr \<Rightarrow> ustr) \<Rightarrow> ustr \<Rightarrow> ustr" where
  "re_sub rx repl [] =
     (case re_match rx [] of None \<Rightarrow> [] | Some g \<Rightarrow> repl g)"
| "re_sub rx repl (c # cs) =
     (case re_match rx (c # cs) of
        None \<Rightarrow> c # re_sub rx repl cs
      | Some g \<Rightarrow>
          repl g @ (if length (fst g) + length (snd g) = 0 then c # re_sub rx repl cs
                    else re_sub rx repl (drop (length (fst g) + length (snd g)) (c # cs))))"
  by pat_completeness auto
termination
  by (relation "measure (\<lambda>(rx, repl, s). length s)") auto

text \<open>\<open>re_finditer\<close> lists the matches that \<open>re_sub\<close> replaces, in order.\<close>

function re_finditer :: "regex \<Rightarrow> ustr \<Rightarrow> (ustr \<times> ustr) list" where
  "re_finditer rx [] =
     (case re_match rx [] of None \<Rightarrow> [] | Some g \<Rightarrow> [g])"
| "re_finditer rx (c # cs) =
     (case re_match rx (c # cs) of
        None \<Rightarrow> re_finditer rx cs
      | Some g \<Rightarrow>
          g # (if length (fst g) + length (snd g) = 0 then re_finditer rx cs
               else re_finditer rx (drop (length (fst g) + length (snd g)) (c # cs))))"
  by pat_completeness auto
termination
  by (relation "measure (\<lambda>(rx, s). length s)") auto

text \<open>
  \<open>\s\<close> in a \<open>str\<close> pattern matches the Unicode whitespace characters: the ASCII ones
  (tab, line feed, vertical tab, form feed, carriage return, the four separators
  U+001C to U+001F, space) and the others listed below.
\<close>

definition is_space :: "codepoint \<Rightarrow> bool" where
  "is_space c \<longleftrightarrow>
     (9 \<le> c \<and> c \<le> 13) \<or> (28 \<le> c \<and> c \<le> 32) \<or> c = 133 \<or> c = 160 \<or> c = 5760 \<or>
     (8192 \<le> c \<and> c \<le> 8202) \<or> c = 8232 \<or> c = 8233 \<or> c = 8239 \<or> c = 8287 \<or> c = 12288"

section \<open>fix\_note.py\<close>

definition note_path :: string where
  "note_path = ''src/db/sqlite/note.rs''"

definition created_at_lit :: ustr where
  "created_at_lit = str (''created_at: row.get('' @ [CHR 0x22] @ ''created_at'' @ [CHR 0x22] @ ''),'')"

text \<open>
  \<^verbatim>\<open>(Note \{[^}]*note_type,\s*)(created_at: row\.get\("created_at"\),)\<close>
  The pattern has no unescaped dot, so the flag \<open>re.DOTALL\<close> changes nothing; the class
  \<open>[^}]\<close> matches every character but the closing brace, line feeds included.
\<close>

definition note_pattern :: regex where
  "note_pattern =
     ([Lit (str ''Note {''), Star (\<lambda>c. c \<noteq> of_char CHR ''}''), Lit (str ''note_type,''),
       Star is_space],
      [Lit created_at_lit])"

definition note_replace_func :: "ustr \<times> ustr \<Rightarrow> ustr" where
  "note_replace_func m =
     (let prefix = fst m; created_at_line = snd m
      in prefix
         @ str ''project_ids: vec![], // Empty by default - relationships managed separately''
         @ [LF] @ str ''                    ''
         @ created_at_line)"

section \<open>fix\_repo.py\<close>

text \<open>
  \<^verbatim>\<open>(Repo \{[^}]*tags: [^,\n]*,?\s*)(created_at: [^,\n]*,)\<close>
  Again there is no unescaped dot for \<open>re.DOTALL\<close> to act on.
\<close>

definition repo_pattern :: regex where
  "repo_pattern =
     ([Lit (str ''Repo {''), Star (\<lambda>c. c \<noteq> of_char CHR ''}''), Lit (str ''tags: ''),
       Star (\<lambda>c. c \<noteq> of_char CHR '','' \<and> c \<noteq> LF), Opt (str '',''), Star is_space],
      [Lit (str ''created_at: ''), Star (\<lambda>c. c \<noteq> of_char CHR '','' \<and> c \<noteq> LF),
       Lit (str '','')])"

definition repo_replace_func :: "ustr \<times> ustr \<Rightarrow> ustr" where
  "repo_replace_func m =
     (let prefix = fst m; created_at_line = snd m
      in prefix
         @ str ''project_ids: vec![], // Empty by default - relationships managed separately''
         @ [LF] @ str ''        ''
         @ created_at_line)"

section \<open>Files and the two scripts\<close>

text \<open>
  The file system maps a path to the characters of the file at that path. Both scripts
  open their files in text mode with the default \<open>newline=None\<close>. Reading then
  translates every line ending (\<open>CR LF\<close>, or a lone \<open>CR\<close>) to a line feed; writing
  translates every line feed to \<open>os.linesep\<close>, which on the POSIX systems the scripts'
  \<open>#!/usr/bin/env python3\<close> line targets is the line feed itself. A path either
  names a readable text file or does not exist; other failures of the environment
  (permissions, a directory at the path, undecodable bytes) are not modelled.
\<close>

fun read_text :: "ustr \<Rightarrow> ustr" where
  "read_text [] = []"
| "read_text [c] = (if c = CR then [LF] else [c])"
| "read_text (c # d # cs) =
     (if c = CR then (if d = LF then LF # read_text cs else LF # read_text (d # cs))
      else c # read_text (d # cs))"

definition os_linesep :: ustr where
  "os_linesep = [LF]"

definition write_text :: "ustr \<Rightarrow> ustr" where
  "write_text s = concat (map (\<lambda>c. if c = LF then os_linesep else [c]) s)"

text \<open>What a run does to the outside world is recorded in order: existence checks,
  files opened for reading, the text handed to \<open>f.write\<close>, and the lines printed.\<close>

datatype event = Exists string | Read string | Write string ustr | Print string

datatype error = FileNotFoundError string

record world =
  files :: "string \<rightharpoonup> ustr"
  events :: "event list"

text \<open>fix\_note.py, from top to bottom.\<close>

definition fix_note :: "world \<Rightarrow> error + world" where
  "fix_note w =
     (case files w note_path of
        None \<Rightarrow> Inl (FileNotFoundError note_path)
      | Some raw \<Rightarrow>
          (let content = read_text raw;
               new_content = re_sub note_pattern note_replace_func content
           in Inr \<lparr>files = (files w)(note_path \<mapsto> write_text new_content),
                   events = events w @ [Read note_path, Write note_path new_content,
                                        Print ''Fixed Note constructors'']\<rparr>))"

definition fix_repo_constructors :: "string \<Rightarrow> world \<Rightarrow> error + world" where
  "fix_repo_constructors file_path w =
     (case files w file_path of
        None \<Rightarrow> Inl (FileNotFoundError file_path)
      | Some raw \<Rightarrow>
          (let content = read_text raw;
               new_content = re_sub repo_pattern repo_replace_func content
           in if new_content \<noteq> content
              then Inr \<lparr>files = (files w)(file_path \<mapsto> write_text new_content),
                        events = events w @ [Read file_path, Write file_path new_content,
                                             Print (''Fixed '' @ file_path)]\<rparr>
              else Inr \<lparr>files = files w,
                        events = events w @ [Read file_path,
                                             Print (''No changes needed for '' @ file_path)]\<rparr>))"

definition files_to_fix :: "string list" where
  "files_to_fix = [''src/db/sqlite/repo_test.rs'', ''src/db/sqlite/critical_tests.rs'']"

text \<open>The loop at the end of fix\_repo.py; an exception raised by
  \<open>fix_repo_constructors\<close> ends the run.\<close>

fun fix_files :: "string list \<Rightarrow> world \<Rightarrow> error + world" where
  "fix_files [] w = Inr w"
| "fix_files (file_path # rest) w =
     (let w1 = w\<lparr>events := events w @ [Exists file_path]\<rparr>
      in if files w file_path \<noteq> None
         then (case fix_repo_constructors file_path w1 of
                 Inl e \<Rightarrow> Inl e
               | Inr w2 \<Rightarrow> fix_files rest w2)
         else fix_files rest
                (w1\<lparr>events := events w1 @ [Print (''File not found: '' @ file_path)]\<rparr>))"

definition fix_repo :: "world \<Rightarrow> error + world" where
  "fix_repo w = fix_files files_to_fix w"

section \<open>What a match looks like\<close>

text \<open>An item and the text it may consume.\<close>

fun conforms :: "item \<Rightarrow> ustr \<Rightarrow> bool" where
  "conforms (Lit l) x = (x = l)"
| "conforms (Star p) x = (\<forall>c\<in>set x. p c)"
| "conforms (Opt l) x = (x = l \<or> x = [])"

section \<open>Names for the statements\<close>

text \<open>The field both scripts insert, and the space character.\<close>

definition project_ids_field :: ustr where
  "project_ids_field = str ''project_ids: vec![], // Empty by default - relationships managed separately''"

definition SP :: codepoint where "SP = 32"

text \<open>A constructor written with the field-init shorthand \<open>note_type,\<close>.\<close>

definition shorthand_example :: ustr where
  "shorthand_example = str ''Note { id: 1, note_type, '' @ created_at_lit @ str '' }''"

text \<open>The input of the specification's end-to-end example.\<close>

definition spec_example :: ustr where
  "spec_example = str ''Note { id: 1, note_type: NoteType::Text, '' @ created_at_lit @ str '' }''"

text \<open>The path an event is about; the paths a run touched and the paths it checked for
  existence, in order; the events a run added.\<close>

fun event_path :: "event \<Rightarrow> string option" where
  "event_path (Exists p) = Some p"
| "event_path (Read p) = Some p"
| "event_path (Write p t) = Some p"
| "event_path (Print l) = None"

fun touched :: "event list \<Rightarrow> string list" where
  "touched [] = []"
| "touched (e # es) = (case event_path e of None \<Rightarrow> touched es | Some p \<Rightarrow> p # touched es)"

fun is_write :: "event \<Rightarrow> bool" where
  "is_write (Write p t) = True"
| "is_write e = False"

fun exists_path :: "event \<Rightarrow> string option" where
  "exists_path (Exists p) = Some p"
| "exists_path e = None"

fun checked :: "event list \<Rightarrow> string list" where
  "checked [] = []"
| "checked (e # es) = (case exists_path e of None \<Rightarrow> checked es | Some p \<Rightarrow> p # checked es)"

text \<open>What the loop of fix\_repo.py is expected to record for one candidate path, given
  the content of the file there (\<open>None\<close> when there is no file).\<close>

definition file_report :: "string \<Rightarrow> ustr option \<Rightarrow> event list" where
  "file_report p content =
     (case content of
        None \<Rightarrow> [Exists p, Print (''File not found: '' @ p)]
      | Some raw \<Rightarrow>
          if re_finditer repo_pattern (read_text raw) = []
          then [Exists p, Read p, Print (''No changes needed for '' @ p)]
          else [Exists p, Read p,
                Write p (re_sub repo_pattern repo_replace_func (read_text raw)),
                Print (''Fixed '' @ p)])"

text \<open>Example files and worlds.\<close>

definition crlf_example :: ustr where
  "crlf_example = str ''// notes'' @ [CR, LF]"

definition plain_example :: ustr where
  "plain_example = str ''// notes'' @ [LF]"

definition file_after :: "error + world \<Rightarrow> string \<Rightarrow> ustr option" where
  "file_after r p = (case r of Inl e \<Rightarrow> None | Inr w \<Rightarrow> files w p)"

definition round_trip_world :: world where
  "round_trip_world =
     \<lparr>files = [note_path \<mapsto> plain_example, ''src/db/sqlite/repo_test.rs'' \<mapsto> crlf_example],
      events = []\<rparr>"

definition repo_example :: ustr where
  "repo_example = str ''Repo { name, tags: vec![], created_at: now, }''"

definition one_file_world :: world where
  "one_file_world =
     \<lparr>files = [''src/db/sqlite/repo_test.rs'' \<mapsto> repo_example, ''Cargo.toml'' \<mapsto> plain_example],
      events = []\<rparr>"

definition new_events :: "world \<Rightarrow> world \<Rightarrow> event list" where
  "new_events w w' = drop (length (events w)) (events w')"

text \<open>The number of positions of a text at which a given fragment starts.\<close>

fun occurrences :: "ustr \<Rightarrow> ustr \<Rightarrow> nat" where
  "occurrences t [] = (if t = [] then 1 else 0)"
| "occurrences t (c # cs) = (if take (length t) (c # cs) = t then 1 else 0) + occurrences t cs"

text \<open>What each script inserts before the \<open>created_at\<close> assignment.\<close>

definition note_inserted :: ustr where
  "note_inserted = project_ids_field @ LF # replicate 20 SP"


text \<open>A brace-free text with two assignments after \<open>note_type,\<close>, and its Repo
  counterpart.\<close>

definition two_notes :: ustr where
  "two_notes = str ''Note { note_type, '' @ created_at_lit @ str '' note_type, '' @ created_at_lit"


text \<open>Whether a non-empty end of the second text is a start of the first.\<close>

fun overlaps :: "ustr \<Rightarrow> ustr \<Rightarrow> bool" where
  "overlaps t [] = False"
| "overlaps t (c # cs) = (prefix (c # cs) t \<or> overlaps t cs)"

text \<open>The pieces of a text between occurrences of a separator character, as
  \<open>str.split\<close> gives them; and whether an item can never consume a given character.\<close>

fun split_on :: "codepoint \<Rightarrow> ustr \<Rightarrow> ustr list" where
  "split_on sep [] = [[]]"
| "split_on sep (c # cs) =
     (if c = sep then [] # split_on sep cs
      else (case split_on sep cs of seg # segs \<Rightarrow> (c # seg) # segs | [] \<Rightarrow> [[c]]))"

fun avoids :: "codepoint \<Rightarrow> item \<Rightarrow> bool" where
  "avoids c (Lit l) = (c \<notin> set l)"
| "avoids c (Star p) = (\<not> p c)"
| "avoids c (Opt l) = (c \<notin> set l)"

text \<open>Two constructions, each closed by its brace, and some code after them.\<close>

definition closed_notes :: ustr where
  "closed_notes =
     str ''Note { id, note_type, '' @ created_at_lit @ str '' } Note { id, note_type,'' @
     LF # str ''  '' @ created_at_lit @ str '' } fn f() {}''"

section \<open>Properties of the engine\<close>

text \<open>Soundness: the parts returned are a prefix of the input and follow the pattern.\<close>

lemma take_eq_append: "take (length l) s = l \<Longrightarrow> s = l @ drop (length l) s"
  by (metis append_take_drop_id)

lemma match_items_sound:
  "match_items pat s = Some ps \<Longrightarrow> list_all2 conforms pat ps \<and> (\<exists>rest. s = concat ps @ rest)"
proof (induction pat s arbitrary: ps rule: match_items.induct)
  case (1 s)
  then show ?case by simp
next
  case (2 l r s)
  from "2.prems" obtain ps' where t: "take (length l) s = l"
    and m: "match_items r (drop (length l) s) = Some ps'" and ps: "ps = l # ps'"
    by (auto split: if_splits)
  from "2.IH"[OF t m] obtain rest where a: "list_all2 conforms r ps'"
    and b: "drop (length l) s = concat ps' @ rest" by blast
  from take_eq_append[OF t] b have "s = concat ps @ rest" by (simp add: ps)
  with a ps show ?case by auto
next
  case (3 l r s)
  show ?case
  proof (cases "take (length l) s = l \<and> match_items r (drop (length l) s) \<noteq> None")
    case True
    then obtain ps' where t: "take (length l) s = l"
      and m: "match_items r (drop (length l) s) = Some ps'" by auto
    with "3.prems" have ps: "ps = l # ps'" by simp
    from "3.IH"(1)[OF t m] obtain rest where a: "list_all2 conforms r ps'"
      and b: "drop (length l) s = concat ps' @ rest" by blast
    from take_eq_append[OF t] b have "s = concat ps @ rest" by (simp add: ps)
    with a ps show ?thesis by auto
  next
    case False
    then have n: "(if take (length l) s = l
            then map_option ((#) l) (match_items r (drop (length l) s))
            else None) = None" by auto
    with "3.prems" obtain ps' where m: "match_items r s = Some ps'" and ps: "ps = [] # ps'"
      by auto
    from "3.IH"(2)[OF n m] ps show ?thesis by auto
  qed
next
  case (4 p r)
  then show ?case by auto
next
  case (5 p r c cs)
  show ?case
  proof (cases "p c \<and> match_items (Star p # r) cs \<noteq> None")
    case True
    then obtain ps' where pc: "p c" and m: "match_items (Star p # r) cs = Some ps'" by auto
    from "5.IH"(1)[OF pc m] obtain rest where a: "list_all2 conforms (Star p # r) ps'"
      and b: "cs = concat ps' @ rest" by blast
    from a obtain x ps'' where ps': "ps' = x # ps''" by (auto simp: list_all2_Cons1)
    from "5.prems" pc m have "ps = cons_first c ps'" by simp
    with ps' a b pc show ?thesis by auto
  next
    case False
    then have n: "(if p c then match_items (Star p # r) cs else None) = None" by auto
    with "5.prems" obtain ps' where m: "match_items r (c # cs) = Some ps'" and ps: "ps = [] # ps'"
      by auto
    from "5.IH"(2)[OF n m] ps show ?thesis by auto
  qed
qed

lemma star_complete:
  "\<forall>c\<in>set a. p c \<Longrightarrow> match_items r t \<noteq> None \<Longrightarrow> match_items (Star p # r) (a @ t) \<noteq> None"
proof (induction a)
  case Nil
  then show ?case by (cases t) (auto split: option.splits)
next
  case (Cons c a)
  then show ?case by (auto split: option.splits)
qed

lemma match_items_complete:
  "list_all2 conforms pat ps \<Longrightarrow> match_items pat (concat ps @ rest) \<noteq> None"
proof (induction pat arbitrary: ps)
  case Nil
  then show ?case by simp
next
  case (Cons it pat)
  then obtain x ps' where ps: "ps = x # ps'" and c: "conforms it x"
    and r: "list_all2 conforms pat ps'" by (auto simp: list_all2_Cons1)
  from Cons.IH[OF r] have m: "match_items pat (concat ps' @ rest) \<noteq> None" .
  show ?case
  proof (cases it)
    case (Lit l)
    with c m ps show ?thesis by auto
  next
    case (Star p)
    with c have "\<forall>c\<in>set x. p c" by simp
    from star_complete[OF this m] Star ps show ?thesis by simp
  next
    case (Opt l)
    with c m ps show ?thesis by (auto split: option.splits)
  qed
qed

lemma star_longest:
  "match_items (Star p # r) s = Some (a # ps) \<Longrightarrow> s = a' @ t \<Longrightarrow> \<forall>c\<in>set a'. p c \<Longrightarrow>
   match_items r t \<noteq> None \<Longrightarrow> length a' \<le> length a"
proof (induction s arbitrary: a ps a')
  case Nil
  then show ?case by simp
next
  case (Cons c cs)
  show ?case
  proof (cases a')
    case Nil
    then show ?thesis by simp
  next
    case (Cons d a'')
    with Cons.prems have d: "d = c" and cs: "cs = a'' @ t" and pc: "p c"
      and pa: "\<forall>c\<in>set a''. p c" by auto
    from star_complete[OF pa Cons.prems(4)] cs obtain qs
      where m: "match_items (Star p # r) cs = Some qs" by auto
    from match_items_sound[OF m] obtain x qs' where qs: "qs = x # qs'"
      by (auto simp: list_all2_Cons1)
    from Cons.prems(1) pc m qs have a: "a = c # x" by simp
    from Cons.IH[OF m[unfolded qs] cs pa Cons.prems(4)] a Cons show ?thesis by simp
  qed
qed


text \<open>The groups of a match are the start of the input; the scan of \<open>re_sub\<close>.\<close>


lemma re_match_split:
  "re_match rx s = Some g \<Longrightarrow> \<exists>rest. s = fst g @ snd g @ rest"
proof -
  assume a: "re_match rx s = Some g"
  then obtain ps where m: "match_items (fst rx @ snd rx) s = Some ps"
    and g: "g = (concat (take (length (fst rx)) ps), concat (drop (length (fst rx)) ps))"
    by (auto simp: re_match_def split: option.splits)
  from match_items_sound[OF m] obtain rest where "s = concat ps @ rest" by blast
  moreover have "concat ps = fst g @ snd g"
    by (simp add: g flip: concat_append)
  ultimately show ?thesis by auto
qed

lemma re_sub_no_match:
  "\<forall>a b. s = a @ b \<longrightarrow> re_match rx b = None \<Longrightarrow> re_sub rx repl s = s"
proof (induction s)
  case Nil
  then show ?case by simp
next
  case (Cons c cs)
  from Cons.prems have "re_match rx (c # cs) = None" by simp
  moreover have "\<forall>a b. cs = a @ b \<longrightarrow> re_match rx b = None"
    using Cons.prems by (metis append_Cons)
  ultimately show ?case using Cons.IH by simp
qed

lemma re_finditer_Nil:
  "re_finditer rx s = [] \<Longrightarrow> re_sub rx repl s = s"
  by (induction rx s rule: re_finditer.induct) (auto split: option.splits)

lemma re_finditer_single:
  "re_finditer rx s = [g] \<Longrightarrow>
   \<exists>pre post. s = pre @ fst g @ snd g @ post \<and> re_sub rx repl s = pre @ repl g @ post \<and>
      re_match rx (fst g @ snd g @ post) = Some g"
proof (induction rx s rule: re_finditer.induct)
  case (1 rx)
  then have m: "re_match rx [] = Some g" by (auto split: option.splits)
  from re_match_split[OF m] have "fst g = []" "snd g = []" by auto
  with m show ?case by simp
next
  case (2 rx c cs)
  show ?case
  proof (cases "re_match rx (c # cs)")
    case None
    with "2.prems" have "re_finditer rx cs = [g]" by simp
    from "2.IH"(1)[OF None this] obtain pre post where
      "cs = pre @ fst g @ snd g @ post" "re_sub rx repl cs = pre @ repl g @ post"
      "re_match rx (fst g @ snd g @ post) = Some g" by blast
    with None have "c # cs = (c # pre) @ fst g @ snd g @ post \<and>
      re_sub rx repl (c # cs) = (c # pre) @ repl g @ post \<and>
      re_match rx (fst g @ snd g @ post) = Some g" by simp
    then show ?thesis by blast
  next
    case (Some g')
    with "2.prems" have g': "g' = g" by simp
    from re_match_split[OF Some] g' obtain rest where s: "c # cs = fst g @ snd g @ rest" by auto
    show ?thesis
    proof (cases "length (fst g) + length (snd g) = 0")
      case True
      with "2.prems" Some g' have "re_finditer rx cs = []" by simp
      from re_finditer_Nil[OF this] have r: "re_sub rx repl cs = cs" .
      from True have e: "fst g = []" "snd g = []" by auto
      have "re_sub rx repl (c # cs) = repl g @ c # re_sub rx repl cs"
        using Some g' True by simp
      with r e Some g'
      have "c # cs = [] @ fst g @ snd g @ (c # cs) \<and>
        re_sub rx repl (c # cs) = [] @ repl g @ (c # cs) \<and>
        re_match rx (fst g @ snd g @ (c # cs)) = Some g" by simp
      then show ?thesis by blast
    next
      case False
      from s have d: "drop (length (fst g) + length (snd g)) (c # cs) = rest" by simp
      from "2.prems" Some g' False
      have "re_finditer rx (drop (length (fst g) + length (snd g)) (c # cs)) = []"
        by (auto split: if_splits)
      then have "re_finditer rx rest = []" by (simp only: d)
      from re_finditer_Nil[OF this] have r: "re_sub rx repl rest = rest" .
      have "re_sub rx repl (c # cs) =
          repl g @ re_sub rx repl (drop (length (fst g) + length (snd g)) (c # cs))"
        using Some g' False by auto
      then have "re_sub rx repl (c # cs) = repl g @ re_sub rx repl rest" by (simp only: d)
      with r s Some g'
      have "c # cs = [] @ fst g @ snd g @ rest \<and>
        re_sub rx repl (c # cs) = [] @ repl g @ rest \<and>
        re_match rx (fst g @ snd g @ rest) = Some g" by simp
      then show ?thesis by blast
    qed
  qed
qed

section \<open>The Note pattern\<close>

lemma note_match_shape:
  assumes "re_match note_pattern s = Some (g1, g2)"
  shows "\<exists>A W rest. g1 = str ''Note {'' @ A @ str ''note_type,'' @ W \<and> g2 = created_at_lit \<and>
     s = g1 @ g2 @ rest \<and> of_char CHR ''}'' \<notin> set A \<and> (\<forall>c\<in>set W. is_space c)"
proof -
  from assms obtain ps where m: "match_items (fst note_pattern @ snd note_pattern) s = Some ps"
    and g: "g1 = concat (take (length (fst note_pattern)) ps)"
           "g2 = concat (drop (length (fst note_pattern)) ps)"
    by (auto simp: re_match_def split: option.splits)
  from match_items_sound[OF m] have "list_all2 conforms (fst note_pattern @ snd note_pattern) ps"
    by blast
  then obtain A W where ps: "ps = [str ''Note {'', A, str ''note_type,'', W, created_at_lit]"
    and A: "\<forall>c\<in>set A. c \<noteq> of_char CHR ''}''" and W: "\<forall>c\<in>set W. is_space c"
    by (auto simp: note_pattern_def list_all2_Cons1)
  from re_match_split[OF assms] obtain rest where "s = g1 @ g2 @ rest" by auto
  moreover from g ps have "g1 = str ''Note {'' @ A @ str ''note_type,'' @ W" "g2 = created_at_lit"
    by (simp_all add: note_pattern_def)
  ultimately show ?thesis using A W by blast
qed

lemma spaces_20: "str ''                    '' = replicate 20 SP"
  by code_simp

lemma spaces_8: "str ''        '' = replicate 8 SP"
  by code_simp

lemma note_replace_func_eq:
  "note_replace_func (pfx, created_at_line) =
     pfx @ project_ids_field @ LF # replicate 20 SP @ created_at_line"
  by (simp add: note_replace_func_def project_ids_field_def spaces_20 Let_def)

lemma repo_replace_func_eq:
  "repo_replace_func (pfx, created_at_line) =
     pfx @ project_ids_field @ LF # replicate 8 SP @ created_at_line"
  by (simp add: repo_replace_func_def project_ids_field_def spaces_8 Let_def)

text \<open>
  C1. When the scan finds exactly one occurrence of the Note pattern in the input, the
  output is the input with one insertion and nothing else changed: the field
  \<open>project_ids: vec![]\<close> with its comment, a line feed and twenty spaces, placed
  directly before the \<open>created_at\<close> assignment of the match, which follows
  \<open>note_type,\<close> and whitespace.
\<close>

theorem note_single_occurrence:
  assumes "length (re_finditer note_pattern content) = 1"
  shows "\<exists>pre A W post.
     content = pre @ str ''Note {'' @ A @ str ''note_type,'' @ W @ created_at_lit @ post \<and>
     re_sub note_pattern note_replace_func content =
       pre @ str ''Note {'' @ A @ str ''note_type,'' @ W
         @ project_ids_field @ LF # replicate 20 SP @ created_at_lit @ post \<and>
     (\<forall>c\<in>set W. is_space c)"
proof -
  from assms obtain g where "re_finditer note_pattern content = [g]"
    by (cases "re_finditer note_pattern content") auto
  from re_finditer_single[OF this, of note_replace_func] obtain pre post where
    c: "content = pre @ fst g @ snd g @ post"
    and r: "re_sub note_pattern note_replace_func content = pre @ note_replace_func g @ post"
    and m: "re_match note_pattern (fst g @ snd g @ post) = Some g" by blast
  from m have "re_match note_pattern (fst g @ snd g @ post) = Some (fst g, snd g)" by simp
  from note_match_shape[OF this] obtain A W where
    g1: "fst g = str ''Note {'' @ A @ str ''note_type,'' @ W" and g2: "snd g = created_at_lit"
    and W: "\<forall>c\<in>set W. is_space c" by blast
  have "note_replace_func g = fst g @ project_ids_field @ LF # replicate 20 SP @ snd g"
    using note_replace_func_eq[of "fst g" "snd g"] by simp
  with c r g1 g2 W show ?thesis by auto
qed

theorem note_single_occurrence_witness:
  "length (re_finditer note_pattern shorthand_example) = 1 \<and>
   (\<exists>pre A W post.
     shorthand_example = pre @ str ''Note {'' @ A @ str ''note_type,'' @ W @ created_at_lit @ post \<and>
     re_sub note_pattern note_replace_func shorthand_example =
       pre @ str ''Note {'' @ A @ str ''note_type,'' @ W
         @ project_ids_field @ LF # replicate 20 SP @ created_at_lit @ post \<and>
     (\<forall>c\<in>set W. is_space c))"
proof -
  have h: "length (re_finditer note_pattern shorthand_example) = 1"
    by code_simp
  from note_single_occurrence[OF h] h show ?thesis by blast
qed

section \<open>What the Note pattern spans\<close>

text \<open>
  The class between \<open>Note {\<close> and \<open>note_type,\<close> is \<open>[^}]\<close>: a closing brace there
  stops the match, so the span may not contain any character whatsoever.
\<close>

theorem note_span_brace_counterexample:
  "re_match note_pattern
     (str ''Note {'' @ str ''}'' @ str ''note_type,'' @ created_at_lit) = None \<and>
   re_sub note_pattern note_replace_func
     (str ''Note {'' @ str ''}'' @ str ''note_type,'' @ created_at_lit) =
     str ''Note {'' @ str ''}'' @ str ''note_type,'' @ created_at_lit"
  by code_simp

text \<open>
  C3 (amended). The Note pattern matches, at the start of a text, from \<open>Note {\<close>
  through any run of characters other than the closing brace (line feeds included) up
  to a literal \<open>note_type,\<close>, then whitespace only, then the \<open>created_at\<close> assignment.
  Every text of that shape is matched, the engine takes a span at least as long as any
  admissible one (the star is greedy), and every match has that shape.
\<close>

theorem note_pattern_span:
  "(of_char CHR ''}'' \<notin> set A \<and> (\<forall>c\<in>set W. is_space c) \<longrightarrow>
      (\<exists>A' W'. re_match note_pattern
                 (str ''Note {'' @ A @ str ''note_type,'' @ W @ created_at_lit @ rest) =
               Some (str ''Note {'' @ A' @ str ''note_type,'' @ W', created_at_lit) \<and>
             length A \<le> length A')) \<and>
   (re_match note_pattern s = Some (g1, g2) \<longrightarrow>
      (\<exists>A W rest. g1 = str ''Note {'' @ A @ str ''note_type,'' @ W \<and> g2 = created_at_lit \<and>
         s = g1 @ g2 @ rest \<and> of_char CHR ''}'' \<notin> set A \<and> (\<forall>c\<in>set W. is_space c)))"
proof (intro conjI impI)
  assume "re_match note_pattern s = Some (g1, g2)"
  from note_match_shape[OF this]
  show "\<exists>A W rest. g1 = str ''Note {'' @ A @ str ''note_type,'' @ W \<and> g2 = created_at_lit \<and>
         s = g1 @ g2 @ rest \<and> of_char CHR ''}'' \<notin> set A \<and> (\<forall>c\<in>set W. is_space c)" .
next
  assume h: "of_char CHR ''}'' \<notin> set A \<and> (\<forall>c\<in>set W. is_space c)"
  let ?p = "\<lambda>c::codepoint. c \<noteq> of_char CHR ''}''"
  let ?r = "[Lit (str ''note_type,''), Star is_space, Lit created_at_lit]"
  let ?t = "str ''note_type,'' @ W @ created_at_lit @ rest"
  let ?s = "str ''Note {'' @ A @ ?t"
  from h have pA: "\<forall>c\<in>set A. ?p c" by auto
  have "list_all2 conforms ?r [str ''note_type,'', W, created_at_lit]" using h by simp
  from match_items_complete[OF this, of rest] have t: "match_items ?r ?t \<noteq> None" by simp
  from star_complete[OF pA t] obtain qs where q: "match_items (Star ?p # ?r) (A @ ?t) = Some qs"
    by auto
  from match_items_sound[OF q] obtain A' W' where
    qs: "qs = [A', str ''note_type,'', W', created_at_lit]"
    by (auto simp: list_all2_Cons1)
  from star_longest[OF q[unfolded qs] refl pA t] have le: "length A \<le> length A'" .
  have "match_items (fst note_pattern @ snd note_pattern) ?s = Some (str ''Note {'' # qs)"
    using q by (simp add: note_pattern_def)
  then have "re_match note_pattern ?s = Some (str ''Note {'' @ A' @ str ''note_type,'' @ W', created_at_lit)"
    by (simp add: re_match_def qs note_pattern_def)
  with le show "\<exists>A' W'. re_match note_pattern ?s =
               Some (str ''Note {'' @ A' @ str ''note_type,'' @ W', created_at_lit) \<and>
             length A \<le> length A'" by blast
qed


theorem note_pattern_span_witness:
  "(of_char CHR ''}'' \<notin> set (LF # str ''  id: 1,'') \<and> list_all is_space [LF, SP, SP]) \<and>
   (\<exists>A' W'. re_match note_pattern
       (str ''Note {'' @ (LF # str ''  id: 1,'') @ str ''note_type,'' @ [LF, SP, SP]
          @ created_at_lit @ str '' }'') =
       Some (str ''Note {'' @ A' @ str ''note_type,'' @ W', created_at_lit) \<and>
       length (LF # str ''  id: 1,'') \<le> length A') \<and>
   re_match note_pattern (str ''Note {note_type,'' @ created_at_lit @ str ''}'') =
     Some (str ''Note {note_type,'', created_at_lit) \<and>
   (\<exists>A W rest. str ''Note {note_type,'' = str ''Note {'' @ A @ str ''note_type,'' @ W \<and>
      created_at_lit = created_at_lit \<and>
      str ''Note {note_type,'' @ created_at_lit @ str ''}'' =
        str ''Note {note_type,'' @ created_at_lit @ rest \<and>
      of_char CHR ''}'' \<notin> set A \<and> (\<forall>c\<in>set W. is_space c))"
proof -
  have h0: "of_char CHR ''}'' \<notin> set (LF # str ''  id: 1,'') \<and> list_all is_space [LF, SP, SP]"
    by code_simp
  have h1: "of_char CHR ''}'' \<notin> set (LF # str ''  id: 1,'') \<and>
            (\<forall>c\<in>set [LF, SP, SP]. is_space c)"
    using h0 unfolding list_all_iff by blast
  have h2: "re_match note_pattern (str ''Note {note_type,'' @ created_at_lit @ str ''}'') =
     Some (str ''Note {note_type,'', created_at_lit)"
    by code_simp
  from note_pattern_span[of "LF # str ''  id: 1,''" "[LF, SP, SP]" "str '' }''"
      "str ''Note {note_type,'' @ created_at_lit @ str ''}''" "str ''Note {note_type,''"
      created_at_lit] h0 h1 h2
  show ?thesis by blast
qed

section \<open>The end-to-end example\<close>

text \<open>
  The example of the specification writes the field as \<open>note_type: NoteType::Text,\<close>.
  The pattern asks for the token \<open>note_type,\<close>, which that input does not contain:
  the substitution returns it unchanged.
\<close>

theorem spec_example_counterexample:
  "re_sub note_pattern note_replace_func spec_example = spec_example \<and>
   \<not> sublist (str ''project_ids'') (re_sub note_pattern note_replace_func spec_example)"
  by code_simp

text \<open>
  C2 (amended). Applied to the fragment
  \<open>Note { id: 1, note_type, created_at: row.get("created_at"), }\<close>, in which the field
  is written with the shorthand \<open>note_type,\<close>, the substitution returns the fragment
  with \<open>project_ids: vec![], // Empty by default - relationships managed separately\<close>,
  a line feed and twenty spaces inserted before the \<open>created_at\<close> assignment.
\<close>

theorem shorthand_example_fixed:
  "re_sub note_pattern note_replace_func shorthand_example =
     str ''Note { id: 1, note_type, project_ids: vec![], // Empty by default - relationships managed separately''
     @ [LF] @ str ''                    '' @ created_at_lit @ str '' }''"
  by code_simp

section \<open>The inserted indentation\<close>

text \<open>
  A constructor whose \<open>created_at\<close> assignment is preceded by any run \<open>W\<close> of
  whitespace, its indentation in the file: the engine's match is determined, and the
  run \<open>W\<close> ends up before the new field.
\<close>

lemma re_sub_match:
  assumes "re_match rx s = Some g" "fst g @ snd g \<noteq> []"
  shows "re_sub rx repl s =
     repl g @ re_sub rx repl (drop (length (fst g) + length (snd g)) s)"
proof (cases s)
  case Nil
  with re_match_split[OF assms(1)] assms(2) show ?thesis by simp
next
  case (Cons c cs)
  with assms show ?thesis by auto
qed

lemma ws_then_lit:
  assumes e: "W @ L @ r = W' @ L @ r'" and W: "\<forall>c\<in>set W. is_space c"
    and W': "\<forall>c\<in>set W'. is_space c" and L: "L \<noteq> []" "\<not> is_space (hd L)"
  shows "W' = W \<and> r' = r"
proof -
  from e append_eq_append_conv2[of W "L @ r" W' "L @ r'"]
  consider (1) u where "W = W' @ u" "u @ L @ r = L @ r'"
    | (2) u where "W @ u = W'" "L @ r = u @ L @ r'"
    by blast
  then show ?thesis
  proof cases
    case 1
    show ?thesis
    proof (cases u)
      case Nil
      with 1 show ?thesis by simp
    next
      case (Cons c u')
      with 1(2) L(1) have "c = hd L" by (cases L) auto
      moreover from Cons 1(1) W have "is_space c" by simp
      ultimately show ?thesis using L(2) by simp
    qed
  next
    case 2
    show ?thesis
    proof (cases u)
      case Nil
      with 2 show ?thesis by simp
    next
      case (Cons c u')
      with 2(2) L(1) have "c = hd L" by (cases L) auto
      moreover from Cons 2(1) W' have "is_space c" by auto
      ultimately show ?thesis using L(2) by simp
    qed
  qed
qed

lemma append_eq_le:
  assumes "a @ x = a' @ y" "length a \<le> length a'"
  shows "\<exists>z. a' = a @ z \<and> x = z @ y"
proof -
  from assms(1) append_eq_append_conv2[of a x a' y]
  consider (1) us where "a = a' @ us" "us @ x = y" | (2) us where "a @ us = a'" "x = us @ y"
    by blast
  then show ?thesis
  proof cases
    case 1
    with assms(2) have "us = []" by simp
    with 1 show ?thesis by simp
  next
    case 2
    then show ?thesis by blast
  qed
qed

lemma no_later_start:
  assumes "T @ X = (c # z) @ T @ Y" "T \<noteq> []" "hd T \<notin> set (tl T)" "hd T \<notin> set X"
  shows False
proof -
  from assms(2) obtain t T' where T: "T = t # T'" by (cases T) auto
  with assms(1) have "T' @ X = z @ T @ Y" by simp
  then have "set (T' @ X) = set (z @ T @ Y)" by simp
  moreover from T have "t \<in> set (z @ T @ Y)" by simp
  ultimately have "t \<in> set (T' @ X)" by simp
  with T assms(3,4) show False by simp
qed

lemma note_type_facts:
  "str ''note_type,'' \<noteq> []" "hd (str ''note_type,'') \<notin> set (tl (str ''note_type,''))"
  "\<not> is_space (hd (str ''note_type,''))" "hd (str ''note_type,'') \<notin> set created_at_lit"
  "hd (str ''note_type,'') \<notin> set (str '' }'')"
  "created_at_lit \<noteq> []" "\<not> is_space (hd created_at_lit)"
  "re_sub note_pattern note_replace_func (str '' }'') = str '' }''"
  by code_simp+

lemma note_any_indentation:
  assumes A: "of_char CHR ''}'' \<notin> set A" and W: "\<forall>c\<in>set W. is_space c"
  shows "re_match note_pattern
           (str ''Note {'' @ A @ str ''note_type,'' @ W @ created_at_lit @ str '' }'') =
     Some (str ''Note {'' @ A @ str ''note_type,'' @ W, created_at_lit)"
proof -
  let ?N = "str ''Note {''" and ?T = "str ''note_type,''" and ?post = "str '' }''"
  let ?p = "\<lambda>c::codepoint. c \<noteq> of_char CHR ''}''"
  let ?r = "[Lit ?T, Star is_space, Lit created_at_lit]"
  let ?t = "?T @ W @ created_at_lit @ ?post"
  let ?s = "?N @ A @ ?t"
  from A have pA: "\<forall>c\<in>set A. ?p c" by auto
  have "list_all2 conforms ?r [?T, W, created_at_lit]" using W by simp
  from match_items_complete[OF this, of ?post] have t: "match_items ?r ?t \<noteq> None" by simp
  from star_complete[OF pA t] obtain qs where q: "match_items (Star ?p # ?r) (A @ ?t) = Some qs"
    by auto
  from match_items_sound[OF q] obtain A' W' rest' where
    qs: "qs = [A', ?T, W', created_at_lit]" and W': "\<forall>c\<in>set W'. is_space c"
    and e: "A @ ?t = A' @ ?T @ W' @ created_at_lit @ rest'"
    by (auto simp: list_all2_Cons1)
  from star_longest[OF q[unfolded qs] refl pA t] have le: "length A \<le> length A'" .
  from append_eq_le[OF e le] obtain z where z: "A' = A @ z"
    and e2: "?T @ (W @ created_at_lit @ ?post) = z @ ?T @ (W' @ created_at_lit @ rest')" by auto
  have zn: "z = []"
  proof (cases z)
    case (Cons c z')
    have "hd ?T \<notin> set (W @ created_at_lit @ ?post)"
      using W note_type_facts(3,4,5) by auto
    from no_later_start[OF e2[unfolded Cons] note_type_facts(1,2) this] show ?thesis ..
  qed simp
  with e2 have "W @ created_at_lit @ ?post = W' @ created_at_lit @ rest'" by simp
  from ws_then_lit[OF this W W' note_type_facts(6,7)] have w: "W' = W" "rest' = ?post" by simp_all
  have "match_items (fst note_pattern @ snd note_pattern) ?s = Some (?N # qs)"
    using q by (simp add: note_pattern_def)
  then have "re_match note_pattern ?s = Some (?N @ A' @ ?T @ W', created_at_lit)"
    by (simp add: re_match_def qs note_pattern_def)
  with z zn w show ?thesis by simp
qed

lemma note_sub_any_indentation:
  assumes A: "of_char CHR ''}'' \<notin> set A" and W: "\<forall>c\<in>set W. is_space c"
  shows "re_sub note_pattern note_replace_func
           (str ''Note {'' @ A @ str ''note_type,'' @ W @ created_at_lit @ str '' }'') =
     str ''Note {'' @ A @ str ''note_type,'' @ W @ project_ids_field @ LF # replicate 20 SP
       @ created_at_lit @ str '' }''"
proof -
  let ?g1 = "str ''Note {'' @ A @ str ''note_type,'' @ W"
  let ?s = "?g1 @ created_at_lit @ str '' }''"
  have m: "re_match note_pattern ?s = Some (?g1, created_at_lit)"
    using note_any_indentation[OF A W] by simp
  have "fst (?g1, created_at_lit) @ snd (?g1, created_at_lit) \<noteq> []"
    using note_type_facts(6) by simp
  from re_sub_match[OF m this, of note_replace_func]
  have "re_sub note_pattern note_replace_func ?s =
    note_replace_func (?g1, created_at_lit) @ re_sub note_pattern note_replace_func (str '' }'')"
    by simp
  then show ?thesis by (simp add: note_replace_func_eq note_type_facts(8))
qed


lemma drop_append_le: "n \<le> length xs \<Longrightarrow> drop n (xs @ ys) = drop n xs @ ys"
  by simp

lemma no_later_start_nth:
  assumes e: "T @ X = (c # z) @ T @ Y" and k: "k < length T"
    and n1: "T ! k \<notin> set (drop (Suc k) T)" and n2: "T ! k \<notin> set X"
  shows False
proof -
  from k have T: "T = take k T @ T ! k # drop (Suc k) T" by (rule id_take_nth_drop)
  define pre where "pre = (c # z) @ take k T"
  define rest where "rest = T ! k # (drop (Suc k) T @ Y)"
  have "(c # z) @ T @ Y = (c # z) @ (take k T @ T ! k # drop (Suc k) T) @ Y"
    using T by simp
  then have r: "(c # z) @ T @ Y = pre @ rest" by (simp add: pre_def rest_def)
  have "Suc k \<le> length pre" using k by (simp add: pre_def)
  from drop_append_le[OF this, of rest] r
  have "drop (Suc k) ((c # z) @ T @ Y) = drop (Suc k) pre @ rest" by simp
  then have "T ! k \<in> set (drop (Suc k) ((c # z) @ T @ Y))" by (simp add: rest_def)
  with e have "T ! k \<in> set (drop (Suc k) (T @ X))" by simp
  moreover from k have "drop (Suc k) (T @ X) = drop (Suc k) T @ X" by simp
  ultimately show False using n1 n2 by simp
qed

lemma takeWhile_stop: "\<forall>c\<in>set a. P c \<Longrightarrow> \<not> P d \<Longrightarrow> takeWhile P (a @ d # r) = a"
  by (simp add: takeWhile_append2)

lemma dropWhile_stop: "\<forall>c\<in>set a. P c \<Longrightarrow> \<not> P d \<Longrightarrow> dropWhile P (a @ d # r) = d # r"
  by (simp add: dropWhile_append2)

lemma repo_lit_facts:
  "str ''tags: '' ! 2 \<notin> set (drop 3 (str ''tags: ''))"
  "\<not> is_space (str ''tags: '' ! 2)"
  "str ''tags: '' ! 2 \<notin> set (str ''vec![]'' @ str '','')"
  "str ''tags: '' ! 2 \<notin> set (str ''created_at: '' @ str ''now'' @ str '','' @ str '' }'')"
  "length (str ''tags: '') = 6"
  "str ''created_at: '' \<noteq> []" "\<not> is_space (hd (str ''created_at: ''))"
  "\<forall>c\<in>set (str ''vec![]''). c \<noteq> of_char CHR '','' \<and> c \<noteq> LF"
  "\<forall>c\<in>set (str ''now''). c \<noteq> of_char CHR '','' \<and> c \<noteq> LF"
  "\<forall>c\<in>set (str ''created_at: ''). c \<noteq> of_char CHR '','' \<and> c \<noteq> LF"
  "str '','' = [of_char CHR '','']"
  "length (str ''vec![]'') = 6" "length (str ''created_at: '') = 12"
  "\<not> is_space (of_char CHR '','')" "of_char CHR '','' \<noteq> LF"
  "re_sub repo_pattern repo_replace_func (str '' }'') = str '' }''"
  by code_simp+

lemma repo_any_indentation:
  assumes W: "\<forall>c\<in>set W. is_space c"
  shows "re_match repo_pattern
           (str ''Repo {'' @ str '' '' @ str ''tags: '' @ str ''vec![]'' @ str '','' @ W
              @ str ''created_at: '' @ str ''now'' @ str '','' @ str '' }'') =
     Some (str ''Repo {'' @ str '' '' @ str ''tags: '' @ str ''vec![]'' @ str '','' @ W,
           str ''created_at: '' @ str ''now'' @ str '','')"
proof -
  let ?N = "str ''Repo {''" and ?A = "str '' ''" and ?TG = "str ''tags: ''"
    and ?V = "str ''vec![]''" and ?K = "str '',''" and ?T = "str ''created_at: ''"
    and ?V2 = "str ''now''" and ?post = "str '' }''"
  let ?comma = "of_char CHR '','' :: codepoint"
  let ?p = "\<lambda>c::codepoint. c \<noteq> of_char CHR ''}''"
  let ?P = "\<lambda>c::codepoint. c \<noteq> of_char CHR '','' \<and> c \<noteq> LF"
  let ?r = "[Lit ?TG, Star ?P, Opt ?K, Star is_space, Lit ?T, Star ?P, Lit ?K]"
  let ?x = "?V @ ?K @ W @ ?T @ ?V2 @ ?K @ ?post"
  let ?t = "?TG @ ?x"
  let ?s = "?N @ ?A @ ?t"
  have pA: "\<forall>c\<in>set ?A. ?p c" by code_simp
  have "list_all2 conforms ?r [?TG, ?V, ?K, W, ?T, ?V2, ?K]"
    using W repo_lit_facts(8,9) by simp
  from match_items_complete[OF this, of ?post] have t: "match_items ?r ?t \<noteq> None" by simp
  from star_complete[OF pA t] obtain qs where q: "match_items (Star ?p # ?r) (?A @ ?t) = Some qs"
    by auto
  from match_items_sound[OF q] obtain A' V' C' W' V2' rest' where
    qs: "qs = [A', ?TG, V', C', W', ?T, V2', ?K]" and W': "\<forall>c\<in>set W'. is_space c"
    and V': "\<forall>c\<in>set V'. ?P c" and V2': "\<forall>c\<in>set V2'. ?P c" and C': "C' = ?K \<or> C' = []"
    and e: "?A @ ?t = A' @ ?TG @ V' @ C' @ W' @ ?T @ V2' @ ?K @ rest'"
    by (auto simp: list_all2_Cons1)
  from star_longest[OF q[unfolded qs] refl pA t] have le: "length ?A \<le> length A'" .
  from append_eq_le[OF e le] obtain z where z: "A' = ?A @ z"
    and e2: "?TG @ ?x = z @ ?TG @ (V' @ C' @ W' @ ?T @ V2' @ ?K @ rest')" by auto
  have zn: "z = []"
  proof (cases z)
    case (Cons c z')
    have "?TG ! 2 \<notin> set ?x" using W repo_lit_facts(2,3,4) by auto
    moreover have "?TG ! 2 \<notin> set (drop (Suc 2) ?TG)"
      using repo_lit_facts(1) by (simp add: numeral_3_eq_3)
    moreover have "2 < length ?TG" using repo_lit_facts(5) by simp
    ultimately show ?thesis using no_later_start_nth[OF e2[unfolded Cons]] by blast
  qed simp
  with e2 have e3: "?V @ ?comma # (W @ ?T @ ?V2 @ ?K @ ?post) =
      V' @ C' @ W' @ ?T @ V2' @ ?comma # rest'"
    by (simp add: repo_lit_facts(11))
  have nP: "\<not> ?P ?comma" by simp
  from C' have c: "C' = ?K"
  proof
    assume "C' = []"
    with e3 have e4: "?V @ ?comma # (W @ ?T @ ?V2 @ ?K @ ?post) =
      V' @ W' @ ?T @ V2' @ ?comma # rest'" by simp
    show ?thesis
    proof (cases "\<forall>c\<in>set W'. ?P c")
      case True
      with V' V2' repo_lit_facts(10) have "\<forall>c\<in>set (V' @ W' @ ?T @ V2'). ?P c" by auto
      from takeWhile_stop[OF this nP, of rest']
      have r: "takeWhile ?P ((V' @ W' @ ?T @ V2') @ ?comma # rest') = V' @ W' @ ?T @ V2'" .
      from takeWhile_stop[OF repo_lit_facts(8) nP, of "W @ ?T @ ?V2 @ ?K @ ?post"]
      have l: "takeWhile ?P (?V @ ?comma # (W @ ?T @ ?V2 @ ?K @ ?post)) = ?V" .
      from e4 have "?V @ ?comma # (W @ ?T @ ?V2 @ ?K @ ?post) =
          (V' @ W' @ ?T @ V2') @ ?comma # rest'" by (simp only: append_assoc)
      then have "takeWhile ?P (?V @ ?comma # (W @ ?T @ ?V2 @ ?K @ ?post)) =
          takeWhile ?P ((V' @ W' @ ?T @ V2') @ ?comma # rest')" by (rule arg_cong)
      then have "?V = V' @ W' @ ?T @ V2'" by (simp only: l r)
      then have "length ?V = length (V' @ W' @ ?T @ V2')" by (rule arg_cong)
      with repo_lit_facts(12,13) show ?thesis by simp
    next
      case False
      then have "\<exists>c\<in>set W'. \<not> ?P c" by blast
      from split_list_first_prop[OF this] obtain W1 d W2 where w: "W' = W1 @ d # W2"
        and d: "\<not> ?P d" and w1': "\<forall>c\<in>set W1. \<not> \<not> ?P c" by blast
      from w1' have w1: "\<forall>c\<in>set W1. ?P c" by blast
      from w W' have "is_space d" by simp
      with d repo_lit_facts(14) have dl: "d = LF" by auto
      from V' w1 have "\<forall>c\<in>set (V' @ W1). ?P c" by auto
      from dropWhile_stop[OF this d, of "W2 @ ?T @ V2' @ ?comma # rest'"]
      have r: "dropWhile ?P ((V' @ W1) @ d # (W2 @ ?T @ V2' @ ?comma # rest')) =
          d # (W2 @ ?T @ V2' @ ?comma # rest')" .
      from dropWhile_stop[OF repo_lit_facts(8) nP, of "W @ ?T @ ?V2 @ ?K @ ?post"]
      have l: "dropWhile ?P (?V @ ?comma # (W @ ?T @ ?V2 @ ?K @ ?post)) =
          ?comma # (W @ ?T @ ?V2 @ ?K @ ?post)" .
      from e4 w have "?V @ ?comma # (W @ ?T @ ?V2 @ ?K @ ?post) =
          (V' @ W1) @ d # (W2 @ ?T @ V2' @ ?comma # rest')"
        by (simp only: append_assoc append_Cons)
      then have "dropWhile ?P (?V @ ?comma # (W @ ?T @ ?V2 @ ?K @ ?post)) =
          dropWhile ?P ((V' @ W1) @ d # (W2 @ ?T @ V2' @ ?comma # rest'))" by (rule arg_cong)
      then have "?comma # (W @ ?T @ ?V2 @ ?K @ ?post) = d # (W2 @ ?T @ V2' @ ?comma # rest')"
        by (simp only: l r)
      then have "?comma = d" by (rule list.inject[THEN iffD1, THEN conjunct1])
      with dl repo_lit_facts(15) show ?thesis by simp
    qed
  qed
  with e3 have e5: "?V @ ?comma # (W @ ?T @ ?V2 @ ?K @ ?post) =
      V' @ ?comma # (W' @ ?T @ V2' @ ?comma # rest')"
    by (simp add: repo_lit_facts(11))
  from takeWhile_stop[OF repo_lit_facts(8) nP, of "W @ ?T @ ?V2 @ ?K @ ?post"]
    takeWhile_stop[OF V' nP, of "W' @ ?T @ V2' @ ?comma # rest'"] e5
  have v: "V' = ?V" by (simp only:)
  with e5 have "W @ ?T @ (?V2 @ ?K @ ?post) = W' @ ?T @ (V2' @ ?comma # rest')" by simp
  from ws_then_lit[OF this W W' repo_lit_facts(6,7)]
  have w: "W' = W" and e6: "?V2 @ ?comma # ?post = V2' @ ?comma # rest'"
    by (simp_all add: repo_lit_facts(11))
  from takeWhile_stop[OF repo_lit_facts(9) nP, of ?post]
    takeWhile_stop[OF V2' nP, of rest'] e6
  have v2: "V2' = ?V2" by (simp only:)
  have "match_items (fst repo_pattern @ snd repo_pattern) ?s = Some (?N # qs)"
    using q by (simp add: repo_pattern_def)
  then have "re_match repo_pattern ?s =
      Some (?N @ A' @ ?TG @ V' @ C' @ W', ?T @ V2' @ ?K)"
    by (simp add: re_match_def qs repo_pattern_def)
  with z zn v c w v2 show ?thesis by simp
qed

lemma repo_sub_any_indentation:
  assumes W: "\<forall>c\<in>set W. is_space c"
  shows "re_sub repo_pattern repo_replace_func
           (str ''Repo {'' @ str '' '' @ str ''tags: '' @ str ''vec![]'' @ str '','' @ W
              @ str ''created_at: '' @ str ''now'' @ str '','' @ str '' }'') =
     str ''Repo {'' @ str '' '' @ str ''tags: '' @ str ''vec![]'' @ str '','' @ W
       @ project_ids_field @ LF # replicate 8 SP
       @ str ''created_at: '' @ str ''now'' @ str '','' @ str '' }''"
proof -
  let ?g1 = "str ''Repo {'' @ str '' '' @ str ''tags: '' @ str ''vec![]'' @ str '','' @ W"
  let ?g2 = "str ''created_at: '' @ str ''now'' @ str '',''"
  let ?s = "?g1 @ ?g2 @ str '' }''"
  have m: "re_match repo_pattern ?s = Some (?g1, ?g2)"
    using repo_any_indentation[OF W] by simp
  have "fst (?g1, ?g2) @ snd (?g1, ?g2) \<noteq> []"
    using repo_lit_facts(6) by simp
  from re_sub_match[OF m this, of repo_replace_func]
  have "re_sub repo_pattern repo_replace_func ?s =
    repo_replace_func (?g1, ?g2) @ re_sub repo_pattern repo_replace_func (str '' }'')"
    by simp
  then show ?thesis by (simp add: repo_replace_func_eq repo_lit_facts(16))
qed

lemma indentation_examples:
  "str ''Note { id, note_type,'' = str ''Note {'' @ str '' id, '' @ str ''note_type,''"
  "of_char CHR ''}'' \<notin> set (str '' id, '')"
  "str ''Repo { tags: vec![],'' =
     str ''Repo {'' @ str '' '' @ str ''tags: '' @ str ''vec![]'' @ str '',''"
  "str ''created_at: now, }'' = str ''created_at: '' @ str ''now'' @ str '','' @ str '' }''"
  by code_simp+

text \<open>
  C9. Whatever the two groups of the match are, the replacement puts the same literal
  between the new field and the \<open>created_at\<close> assignment: a line feed and twenty
  spaces in fix\_note.py, a line feed and eight spaces in fix\_repo.py. In particular,
  whatever whitespace \<open>W\<close> indents the assignment in the file, the substitution keeps
  \<open>W\<close> before the new field and puts the fixed literal, not \<open>W\<close>, before the
  assignment.
\<close>

theorem fixed_indentation:
  "(note_replace_func (pfx, created_at_line) =
      pfx @ project_ids_field @ LF # replicate 20 SP @ created_at_line \<and>
    repo_replace_func (pfx, created_at_line) =
      pfx @ project_ids_field @ LF # replicate 8 SP @ created_at_line) \<and>
   ((\<forall>c\<in>set W. is_space c) \<longrightarrow>
      re_sub note_pattern note_replace_func
        (str ''Note { id, note_type,'' @ W @ created_at_lit @ str '' }'') =
      str ''Note { id, note_type,'' @ W @ project_ids_field @ LF # replicate 20 SP
        @ created_at_lit @ str '' }'' \<and>
      re_sub repo_pattern repo_replace_func
        (str ''Repo { tags: vec![],'' @ W @ str ''created_at: now, }'') =
      str ''Repo { tags: vec![],'' @ W @ project_ids_field @ LF # replicate 8 SP
        @ str ''created_at: now, }'')"
proof (intro conjI impI)
  show "note_replace_func (pfx, created_at_line) =
      pfx @ project_ids_field @ LF # replicate 20 SP @ created_at_line"
    by (rule note_replace_func_eq)
  show "repo_replace_func (pfx, created_at_line) =
      pfx @ project_ids_field @ LF # replicate 8 SP @ created_at_line"
    by (rule repo_replace_func_eq)
next
  assume W: "\<forall>c\<in>set W. is_space c"
  from note_sub_any_indentation[OF indentation_examples(2) W]
  show "re_sub note_pattern note_replace_func
        (str ''Note { id, note_type,'' @ W @ created_at_lit @ str '' }'') =
      str ''Note { id, note_type,'' @ W @ project_ids_field @ LF # replicate 20 SP
        @ created_at_lit @ str '' }''"
    by (simp only: indentation_examples(1) append_assoc)
next
  assume W: "\<forall>c\<in>set W. is_space c"
  from repo_sub_any_indentation[OF W]
  show "re_sub repo_pattern repo_replace_func
        (str ''Repo { tags: vec![],'' @ W @ str ''created_at: now, }'') =
      str ''Repo { tags: vec![],'' @ W @ project_ids_field @ LF # replicate 8 SP
        @ str ''created_at: now, }''"
    by (simp only: indentation_examples(3,4) append_assoc)
qed

theorem fixed_indentation_witness:
  "list_all is_space [LF, 9, 9] \<and>
   re_sub note_pattern note_replace_func
     (str ''Note { id, note_type,'' @ [LF, 9, 9] @ created_at_lit @ str '' }'') =
   str ''Note { id, note_type,'' @ [LF, 9, 9] @ project_ids_field @ LF # replicate 20 SP
     @ created_at_lit @ str '' }'' \<and>
   re_sub repo_pattern repo_replace_func
     (str ''Repo { tags: vec![],'' @ [LF, 9, 9] @ str ''created_at: now, }'') =
   str ''Repo { tags: vec![],'' @ [LF, 9, 9] @ project_ids_field @ LF # replicate 8 SP
     @ str ''created_at: now, }''"
proof -
  have h0: "list_all is_space [LF, 9, 9]" by code_simp
  have h: "\<forall>c\<in>set [LF, 9, 9]. is_space c"
    using h0 unfolding list_all_iff by blast
  from fixed_indentation[of _ _ "[LF, 9, 9]"] h h0 show ?thesis by blast
qed

section \<open>Reading, writing and the length of the result\<close>

lemma write_text_id: "write_text s = s"
  by (induction s) (simp_all add: write_text_def os_linesep_def)

lemma read_text_no_CR: "CR \<notin> set s \<Longrightarrow> read_text s = s"
  by (induction s rule: read_text.induct) auto

lemma re_sub_length:
  "\<forall>g. length (repl g) = length (fst g) + length (snd g) + k \<Longrightarrow>
   length (re_sub rx repl s) = length s + k * length (re_finditer rx s)"
proof (induction rx repl s rule: re_sub.induct)
  case (1 rx repl)
  show ?case
  proof (cases "re_match rx []")
    case None
    then show ?thesis by simp
  next
    case (Some g)
    from re_match_split[OF Some] have "fst g = []" "snd g = []" by auto
    moreover from "1.prems" have "length (repl g) = length (fst g) + length (snd g) + k"
      by blast
    ultimately show ?thesis using Some by simp
  qed
next
  case (2 rx repl c cs)
  show ?case
  proof (cases "re_match rx (c # cs)")
    case None
    with "2.IH"(1) "2.prems" show ?thesis by simp
  next
    case (Some g)
    let ?n = "length (fst g) + length (snd g)"
    from re_match_split[OF Some] obtain rest where s: "c # cs = fst g @ snd g @ rest" by auto
    from "2.prems" have lg: "length (repl g) = length (fst g) + length (snd g) + k"
      by blast
    show ?thesis
    proof (cases "?n = 0")
      case True
      have "re_sub rx repl (c # cs) = repl g @ c # re_sub rx repl cs"
        using Some True by simp
      moreover have "re_finditer rx (c # cs) = g # re_finditer rx cs"
        using Some True by simp
      ultimately show ?thesis using "2.IH"(2)[OF Some True "2.prems"] lg True by simp
    next
      case False
      from s have d: "drop ?n (c # cs) = rest" by simp
      from s have len: "length (c # cs) = ?n + length rest"
        by (metis add.assoc length_append)
      have "re_sub rx repl (c # cs) = repl g @ re_sub rx repl (drop ?n (c # cs))"
        using Some False by auto
      then have a: "re_sub rx repl (c # cs) = repl g @ re_sub rx repl rest" by (simp only: d)
      have "re_finditer rx (c # cs) = g # re_finditer rx (drop ?n (c # cs))"
        using Some False by auto
      then have b: "re_finditer rx (c # cs) = g # re_finditer rx rest" by (simp only: d)
      from "2.IH"(3)[OF Some False "2.prems"] have
        "length (re_sub rx repl rest) = length rest + k * length (re_finditer rx rest)"
        by (simp only: d)
      with a b len lg show ?thesis by simp
    qed
  qed
qed

lemma repo_sub_changes:
  "re_sub repo_pattern repo_replace_func s = s \<longleftrightarrow> re_finditer repo_pattern s = []"
proof
  assume "re_finditer repo_pattern s = []"
  then show "re_sub repo_pattern repo_replace_func s = s" by (rule re_finditer_Nil)
next
  assume a: "re_sub repo_pattern repo_replace_func s = s"
  have "\<forall>g. length (repo_replace_func g) = length (fst g) + length (snd g) + 84"
    by (simp add: repo_replace_func_def Let_def str_def)
  from re_sub_length[OF this, of repo_pattern s] a
  show "re_finditer repo_pattern s = []" by simp
qed

lemma fix_repo_constructors_unchanged:
  assumes "files w file_path = Some raw" "re_finditer repo_pattern (read_text raw) = []"
  shows "fix_repo_constructors file_path w =
     Inr \<lparr>files = files w,
          events = events w @ [Read file_path, Print (''No changes needed for '' @ file_path)]\<rparr>"
  using assms repo_sub_changes[of "read_text raw"]
  by (simp add: fix_repo_constructors_def Let_def)

lemma fix_repo_constructors_changed:
  assumes "files w file_path = Some raw" "re_finditer repo_pattern (read_text raw) \<noteq> []"
  shows "fix_repo_constructors file_path w =
     Inr \<lparr>files = (files w)(file_path \<mapsto> re_sub repo_pattern repo_replace_func (read_text raw)),
          events = events w @ [Read file_path,
             Write file_path (re_sub repo_pattern repo_replace_func (read_text raw)),
             Print (''Fixed '' @ file_path)]\<rparr>"
  using assms repo_sub_changes[of "read_text raw"]
  by (simp add: fix_repo_constructors_def Let_def write_text_id)

text \<open>
  C6. For an existing file, \<open>fix_repo_constructors\<close> writes if and only if the substituted
  text differs from the text read. When the pattern occurs nowhere in the text, nothing
  is written, the file system stays as it was and the line "No changes needed for ..."
  is printed.
\<close>

theorem repo_conditional_write:
  assumes "files w file_path = Some raw"
  shows "\<exists>w'. fix_repo_constructors file_path w = Inr w' \<and>
     ((\<exists>e\<in>set (new_events w w'). is_write e) \<longleftrightarrow>
        re_sub repo_pattern repo_replace_func (read_text raw) \<noteq> read_text raw) \<and>
     (re_finditer repo_pattern (read_text raw) = [] \<longrightarrow>
        files w' = files w \<and> (\<forall>e\<in>set (new_events w w'). \<not> is_write e) \<and>
        new_events w w' = [Read file_path, Print (''No changes needed for '' @ file_path)])"
proof (cases "re_finditer repo_pattern (read_text raw) = []")
  case True
  from fix_repo_constructors_unchanged[OF assms True] True repo_sub_changes[of "read_text raw"]
  show ?thesis by (simp add: new_events_def)
next
  case False
  from fix_repo_constructors_changed[OF assms False] False repo_sub_changes[of "read_text raw"]
  show ?thesis by (simp add: new_events_def)
qed


lemma touched_append: "touched (a @ b) = touched a @ touched b"
  by (induction a) (simp_all split: option.splits)

lemma checked_append: "checked (a @ b) = checked a @ checked b"
  by (induction a) (simp_all split: option.splits)

lemma one_file:
  "\<exists>w1. (if files w p \<noteq> None
             then fix_repo_constructors p (w\<lparr>events := events w @ [Exists p]\<rparr>)
             else Inr (w\<lparr>events := events w @ [Exists p, Print (''File not found: '' @ p)]\<rparr>))
            = Inr w1 \<and>
     events w1 = events w @ file_report p (files w p) \<and>
     (\<forall>q. q \<noteq> p \<longrightarrow> files w1 q = files w q) \<and>
     files w1 p = (case files w p of None \<Rightarrow> None
        | Some raw \<Rightarrow> Some (if re_finditer repo_pattern (read_text raw) = [] then raw
                            else re_sub repo_pattern repo_replace_func (read_text raw)))"
proof (cases "files w p")
  case None
  then show ?thesis by (simp add: file_report_def)
next
  case (Some raw)
  let ?w = "w\<lparr>events := events w @ [Exists p]\<rparr>"
  from Some have f: "files ?w p = Some raw" by simp
  show ?thesis
  proof (cases "re_finditer repo_pattern (read_text raw) = []")
    case True
    from fix_repo_constructors_unchanged[OF f True] Some True
    show ?thesis by (simp add: file_report_def)
  next
    case False
    from fix_repo_constructors_changed[OF f False] Some False
    show ?thesis by (simp add: file_report_def)
  qed
qed

lemma fix_files_Cons:
  "fix_files (p # rest) w =
     (case (if files w p \<noteq> None
             then fix_repo_constructors p (w\<lparr>events := events w @ [Exists p]\<rparr>)
             else Inr (w\<lparr>events := events w @ [Exists p, Print (''File not found: '' @ p)]\<rparr>))
      of Inl e \<Rightarrow> Inl e | Inr w1 \<Rightarrow> fix_files rest w1)"
  by (simp add: Let_def)


lemma fix_files_trace:
  "distinct ps \<Longrightarrow>
   \<exists>w'. fix_files ps w = Inr w' \<and>
     events w' = events w @ concat (map (\<lambda>p. file_report p (files w p)) ps) \<and>
     (\<forall>q. q \<notin> set ps \<longrightarrow> files w' q = files w q) \<and>
     (\<forall>p\<in>set ps. files w' p = (case files w p of None \<Rightarrow> None
        | Some raw \<Rightarrow> Some (if re_finditer repo_pattern (read_text raw) = [] then raw
                            else re_sub repo_pattern repo_replace_func (read_text raw))))"
proof (induction ps arbitrary: w)
  case Nil
  then show ?case by simp
next
  case (Cons p ps)
  from one_file[of w p] obtain w1 where
    s: "(if files w p \<noteq> None
             then fix_repo_constructors p (w\<lparr>events := events w @ [Exists p]\<rparr>)
             else Inr (w\<lparr>events := events w @ [Exists p, Print (''File not found: '' @ p)]\<rparr>))
            = Inr w1"
    and e1: "events w1 = events w @ file_report p (files w p)"
    and f1: "\<forall>q. q \<noteq> p \<longrightarrow> files w1 q = files w q"
    and g1: "files w1 p = (case files w p of None \<Rightarrow> None
        | Some raw \<Rightarrow> Some (if re_finditer repo_pattern (read_text raw) = [] then raw
                            else re_sub repo_pattern repo_replace_func (read_text raw)))"
    by blast
  from Cons.prems have d: "distinct ps" and np: "p \<notin> set ps" by auto
  from Cons.IH[OF d, of w1] obtain w' where
    r: "fix_files ps w1 = Inr w'"
    and e2: "events w' = events w1 @ concat (map (\<lambda>p. file_report p (files w1 p)) ps)"
    and f2: "\<forall>q. q \<notin> set ps \<longrightarrow> files w' q = files w1 q"
    and g2: "\<forall>p\<in>set ps. files w' p = (case files w1 p of None \<Rightarrow> None
        | Some raw \<Rightarrow> Some (if re_finditer repo_pattern (read_text raw) = [] then raw
                            else re_sub repo_pattern repo_replace_func (read_text raw)))"
    by blast
  have same: "map (\<lambda>p. file_report p (files w1 p)) ps = map (\<lambda>p. file_report p (files w p)) ps"
    using f1 np by (intro map_cong) auto
  have "fix_files (p # ps) w = Inr w'"
    by (simp only: fix_files_Cons s r sum.case)
  moreover have "events w' = events w @ concat (map (\<lambda>p. file_report p (files w p)) (p # ps))"
    using e1 e2 same by simp
  moreover have "\<forall>q. q \<notin> set (p # ps) \<longrightarrow> files w' q = files w q"
    using f1 f2 by simp
  moreover have "\<forall>q\<in>set (p # ps). files w' q = (case files w q of None \<Rightarrow> None
        | Some raw \<Rightarrow> Some (if re_finditer repo_pattern (read_text raw) = [] then raw
                            else re_sub repo_pattern repo_replace_func (read_text raw)))"
    using f1 f2 g1 g2 np by auto
  ultimately show ?case by blast
qed

lemma checked_file_report: "checked (file_report p c) = [p]"
  by (simp add: file_report_def split: option.splits)

lemma touched_file_report: "set (touched (file_report p c)) = {p}"
  by (simp add: file_report_def split: option.splits)


section \<open>Unmatched content\<close>

text \<open>
  A file with a \<open>CR LF\<close> line ending that neither pattern matches: fix\_note.py reads the
  line ending as a line feed and writes the text back, so the file no longer has its
  carriage return.
\<close>

theorem crlf_rewritten_counterexample:
  "re_finditer note_pattern crlf_example = [] \<and>
   re_finditer repo_pattern crlf_example = [] \<and>
   file_after (fix_note \<lparr>files = [note_path \<mapsto> crlf_example], events = []\<rparr>) note_path
     = Some plain_example \<and>
   plain_example \<noteq> crlf_example"
  by code_simp

text \<open>
  C5 (amended). For a file without carriage returns that the Note pattern does not
  match, fix\_note.py still writes, and writes the same text: the file system after the
  run equals the one before. For a file (with or without carriage returns) whose text
  the Repo pattern does not match, \<open>fix_repo_constructors\<close> writes nothing and leaves
  the file system as it was.
\<close>

theorem unmatched_round_trip:
  "(files w note_path = Some c \<and> CR \<notin> set c \<and> re_finditer note_pattern c = [] \<longrightarrow>
      (\<exists>w'. fix_note w = Inr w' \<and> files w' = files w \<and>
         new_events w w' = [Read note_path, Write note_path c, Print ''Fixed Note constructors''])) \<and>
   (files w file_path = Some raw \<and> re_finditer repo_pattern (read_text raw) = [] \<longrightarrow>
      (\<exists>w'. fix_repo_constructors file_path w = Inr w' \<and> files w' = files w \<and>
         (\<forall>e\<in>set (new_events w w'). \<not> is_write e)))"
proof (intro conjI impI)
  assume a: "files w note_path = Some c \<and> CR \<notin> set c \<and> re_finditer note_pattern c = []"
  then have r: "read_text c = c" by (simp add: read_text_no_CR)
  from a have "re_sub note_pattern note_replace_func c = c" by (simp add: re_finditer_Nil)
  with a r have "fix_note w = Inr \<lparr>files = (files w)(note_path \<mapsto> c),
      events = events w @ [Read note_path, Write note_path c, Print ''Fixed Note constructors'']\<rparr>"
    by (simp add: fix_note_def Let_def write_text_id)
  moreover from a have "(files w)(note_path \<mapsto> c) = files w" by (simp add: map_upd_triv)
  ultimately show "\<exists>w'. fix_note w = Inr w' \<and> files w' = files w \<and>
         new_events w w' = [Read note_path, Write note_path c, Print ''Fixed Note constructors'']"
    by (simp add: new_events_def)
next
  assume a: "files w file_path = Some raw \<and> re_finditer repo_pattern (read_text raw) = []"
  then have "fix_repo_constructors file_path w =
     Inr \<lparr>files = files w,
          events = events w @ [Read file_path, Print (''No changes needed for '' @ file_path)]\<rparr>"
    by (simp add: fix_repo_constructors_unchanged)
  then show "\<exists>w'. fix_repo_constructors file_path w = Inr w' \<and> files w' = files w \<and>
         (\<forall>e\<in>set (new_events w w'). \<not> is_write e)"
    by (simp add: new_events_def)
qed

theorem unmatched_round_trip_witness:
  "(files round_trip_world note_path = Some plain_example \<and>
    CR \<notin> set plain_example \<and> re_finditer note_pattern plain_example = []) \<and>
   (\<exists>w'. fix_note round_trip_world = Inr w' \<and> files w' = files round_trip_world \<and>
      new_events round_trip_world w' =
        [Read note_path, Write note_path plain_example, Print ''Fixed Note constructors'']) \<and>
   (files round_trip_world ''src/db/sqlite/repo_test.rs'' = Some crlf_example \<and>
    re_finditer repo_pattern (read_text crlf_example) = []) \<and>
   (\<exists>w'. fix_repo_constructors ''src/db/sqlite/repo_test.rs'' round_trip_world = Inr w' \<and>
      files w' = files round_trip_world \<and>
      (\<forall>e\<in>set (new_events round_trip_world w'). \<not> is_write e))"
proof -
  have h1: "files round_trip_world note_path = Some plain_example \<and>
    CR \<notin> set plain_example \<and> re_finditer note_pattern plain_example = []"
  proof (intro conjI)
    show "files round_trip_world note_path = Some plain_example"
      by (simp add: round_trip_world_def note_path_def)
    show "CR \<notin> set plain_example" by code_simp
    show "re_finditer note_pattern plain_example = []" by code_simp
  qed
  have h2: "files round_trip_world ''src/db/sqlite/repo_test.rs'' = Some crlf_example \<and>
    re_finditer repo_pattern (read_text crlf_example) = []"
  proof (intro conjI)
    show "files round_trip_world ''src/db/sqlite/repo_test.rs'' = Some crlf_example"
      by (simp add: round_trip_world_def)
    show "re_finditer repo_pattern (read_text crlf_example) = []" by code_simp
  qed
  from unmatched_round_trip[of round_trip_world plain_example
      "''src/db/sqlite/repo_test.rs''" crlf_example] h1 h2
  show ?thesis by blast
qed

theorem repo_conditional_write_witness:
  "files round_trip_world ''src/db/sqlite/repo_test.rs'' = Some crlf_example \<and>
   re_finditer repo_pattern (read_text crlf_example) = [] \<and>
   (\<exists>w'. fix_repo_constructors ''src/db/sqlite/repo_test.rs'' round_trip_world = Inr w' \<and>
      files w' = files round_trip_world \<and>
      (\<forall>e\<in>set (new_events round_trip_world w'). \<not> is_write e) \<and>
      new_events round_trip_world w' =
        [Read ''src/db/sqlite/repo_test.rs'',
         Print (''No changes needed for '' @ ''src/db/sqlite/repo_test.rs'')])"
proof -
  have h1: "files round_trip_world ''src/db/sqlite/repo_test.rs'' = Some crlf_example"
    by (simp add: round_trip_world_def)
  have h2: "re_finditer repo_pattern (read_text crlf_example) = []"
    by code_simp
  from repo_conditional_write[OF h1] h1 h2 show ?thesis by blast
qed

section \<open>The run of fix\_repo.py\<close>

text \<open>
  C7. The run of fix\_repo.py never raises on a missing candidate. Each candidate
  path is checked for existence: when there is no file, "File not found: ..." is printed and the file is not
  opened; when there is one, it is read and reported, as "No changes needed for ..."
  when the pattern occurs nowhere in its text and as "Fixed ..." otherwise.
\<close>

theorem repo_run_reports:
  "\<exists>w'. fix_repo w = Inr w' \<and>
     (\<forall>p\<in>set files_to_fix.
        Exists p \<in> set (new_events w w') \<and>
        (files w p = None \<longrightarrow>
           Print (''File not found: '' @ p) \<in> set (new_events w w') \<and>
           Read p \<notin> set (new_events w w') \<and> files w' p = None) \<and>
        (\<forall>raw. files w p = Some raw \<longrightarrow>
           Read p \<in> set (new_events w w') \<and>
           Print (''File not found: '' @ p) \<notin> set (new_events w w') \<and>
           (re_finditer repo_pattern (read_text raw) = [] \<longrightarrow>
              Print (''No changes needed for '' @ p) \<in> set (new_events w w') \<and>
              Print (''Fixed '' @ p) \<notin> set (new_events w w')) \<and>
           (re_finditer repo_pattern (read_text raw) \<noteq> [] \<longrightarrow>
              Print (''Fixed '' @ p) \<in> set (new_events w w') \<and>
              Print (''No changes needed for '' @ p) \<notin> set (new_events w w'))))"
proof -
  have "distinct files_to_fix" by (simp add: files_to_fix_def)
  from fix_files_trace[OF this, of w] obtain w' where
    r: "fix_repo w = Inr w'"
    and e: "events w' = events w @ concat (map (\<lambda>p. file_report p (files w p)) files_to_fix)"
    and g: "\<forall>p\<in>set files_to_fix. files w' p = (case files w p of None \<Rightarrow> None
        | Some raw \<Rightarrow> Some (if re_finditer repo_pattern (read_text raw) = [] then raw
                            else re_sub repo_pattern repo_replace_func (read_text raw)))"
    unfolding fix_repo_def by blast
  from e have n: "new_events w w' =
     file_report ''src/db/sqlite/repo_test.rs'' (files w ''src/db/sqlite/repo_test.rs'') @
     file_report ''src/db/sqlite/critical_tests.rs'' (files w ''src/db/sqlite/critical_tests.rs'')"
    by (simp add: new_events_def files_to_fix_def)
  have "\<forall>p\<in>set files_to_fix.
        Exists p \<in> set (new_events w w') \<and>
        (files w p = None \<longrightarrow>
           Print (''File not found: '' @ p) \<in> set (new_events w w') \<and>
           Read p \<notin> set (new_events w w') \<and> files w' p = None) \<and>
        (\<forall>raw. files w p = Some raw \<longrightarrow>
           Read p \<in> set (new_events w w') \<and>
           Print (''File not found: '' @ p) \<notin> set (new_events w w') \<and>
           (re_finditer repo_pattern (read_text raw) = [] \<longrightarrow>
              Print (''No changes needed for '' @ p) \<in> set (new_events w w') \<and>
              Print (''Fixed '' @ p) \<notin> set (new_events w w')) \<and>
           (re_finditer repo_pattern (read_text raw) \<noteq> [] \<longrightarrow>
              Print (''Fixed '' @ p) \<in> set (new_events w w') \<and>
              Print (''No changes needed for '' @ p) \<notin> set (new_events w w')))"
    using g unfolding n
    by (auto simp: file_report_def files_to_fix_def split: option.splits)
  with r show ?thesis by blast
qed


theorem repo_run_reports_witness:
  "(''src/db/sqlite/critical_tests.rs'' \<in> set files_to_fix \<and>
    files one_file_world ''src/db/sqlite/critical_tests.rs'' = None \<and>
    ''src/db/sqlite/repo_test.rs'' \<in> set files_to_fix \<and>
    files one_file_world ''src/db/sqlite/repo_test.rs'' = Some repo_example \<and>
    re_finditer repo_pattern (read_text repo_example) \<noteq> [] \<and>
    files round_trip_world ''src/db/sqlite/repo_test.rs'' = Some crlf_example \<and>
    re_finditer repo_pattern (read_text crlf_example) = []) \<and>
   (\<exists>w'. fix_repo one_file_world = Inr w' \<and>
      Print (''File not found: '' @ ''src/db/sqlite/critical_tests.rs'')
        \<in> set (new_events one_file_world w') \<and>
      Read ''src/db/sqlite/critical_tests.rs'' \<notin> set (new_events one_file_world w') \<and>
      Read ''src/db/sqlite/repo_test.rs'' \<in> set (new_events one_file_world w') \<and>
      Print (''Fixed '' @ ''src/db/sqlite/repo_test.rs'') \<in> set (new_events one_file_world w')) \<and>
   (\<exists>w'. fix_repo round_trip_world = Inr w' \<and>
      Print (''No changes needed for '' @ ''src/db/sqlite/repo_test.rs'')
        \<in> set (new_events round_trip_world w'))"
proof -
  have h1: "''src/db/sqlite/critical_tests.rs'' \<in> set files_to_fix"
    and h2: "''src/db/sqlite/repo_test.rs'' \<in> set files_to_fix"
    by (simp_all add: files_to_fix_def)
  have h3: "files one_file_world ''src/db/sqlite/critical_tests.rs'' = None"
    and h4: "files one_file_world ''src/db/sqlite/repo_test.rs'' = Some repo_example"
    by (simp_all add: one_file_world_def)
  have h5: "re_finditer repo_pattern (read_text repo_example) \<noteq> []"
    by code_simp
  have h6: "files round_trip_world ''src/db/sqlite/repo_test.rs'' = Some crlf_example"
    by (simp add: round_trip_world_def)
  have h7: "re_finditer repo_pattern (read_text crlf_example) = []"
    by code_simp
  from repo_run_reports[of one_file_world] h1 h2 h3 h4 h5
  have a: "\<exists>w'. fix_repo one_file_world = Inr w' \<and>
      Print (''File not found: '' @ ''src/db/sqlite/critical_tests.rs'')
        \<in> set (new_events one_file_world w') \<and>
      Read ''src/db/sqlite/critical_tests.rs'' \<notin> set (new_events one_file_world w') \<and>
      Read ''src/db/sqlite/repo_test.rs'' \<in> set (new_events one_file_world w') \<and>
      Print (''Fixed '' @ ''src/db/sqlite/repo_test.rs'') \<in> set (new_events one_file_world w')"
    by blast
  from repo_run_reports[of round_trip_world] h2 h6 h7
  have b: "\<exists>w'. fix_repo round_trip_world = Inr w' \<and>
      Print (''No changes needed for '' @ ''src/db/sqlite/repo_test.rs'')
        \<in> set (new_events round_trip_world w')"
    by blast
  from a b h1 h2 h3 h4 h5 h6 h7 show ?thesis by blast
qed

text \<open>
  C8. fix\_note.py opens only \<open>src/db/sqlite/note.rs\<close> (once to read, once to write, or
  fails on it when it is missing) and changes no other file; fix\_repo.py checks
  exactly \<open>src/db/sqlite/repo_test.rs\<close> and \<open>src/db/sqlite/critical_tests.rs\<close>, in
  that order, touches no other path and changes no other file. Neither run takes a
  path as an argument.
\<close>

theorem hardcoded_paths:
  "note_path = ''src/db/sqlite/note.rs'' \<and>
   files_to_fix = [''src/db/sqlite/repo_test.rs'', ''src/db/sqlite/critical_tests.rs''] \<and>
   (files w note_path = None \<longrightarrow> fix_note w = Inl (FileNotFoundError note_path)) \<and>
   (files w note_path \<noteq> None \<longrightarrow>
      (\<exists>w'. fix_note w = Inr w' \<and> touched (new_events w w') = [note_path, note_path] \<and>
         (\<forall>p. p \<noteq> note_path \<longrightarrow> files w' p = files w p))) \<and>
   (\<exists>w'. fix_repo w = Inr w' \<and> checked (new_events w w') = files_to_fix \<and>
      set (touched (new_events w w')) = set files_to_fix \<and>
      (\<forall>p. p \<notin> set files_to_fix \<longrightarrow> files w' p = files w p))"
proof (intro conjI impI)
  show "note_path = ''src/db/sqlite/note.rs''" by (simp add: note_path_def)
  show "files_to_fix = [''src/db/sqlite/repo_test.rs'', ''src/db/sqlite/critical_tests.rs'']"
    by (simp add: files_to_fix_def)
  show "fix_note w = Inl (FileNotFoundError note_path)" if "files w note_path = None"
    using that by (simp add: fix_note_def)
  show "\<exists>w'. fix_note w = Inr w' \<and> touched (new_events w w') = [note_path, note_path] \<and>
         (\<forall>p. p \<noteq> note_path \<longrightarrow> files w' p = files w p)" if "files w note_path \<noteq> None"
    using that by (auto simp: fix_note_def Let_def new_events_def)
  have "distinct files_to_fix" by (simp add: files_to_fix_def)
  from fix_files_trace[OF this, of w] obtain w' where
    r: "fix_repo w = Inr w'"
    and e: "events w' = events w @ concat (map (\<lambda>p. file_report p (files w p)) files_to_fix)"
    and f: "\<forall>q. q \<notin> set files_to_fix \<longrightarrow> files w' q = files w q"
    unfolding fix_repo_def by blast
  from e have n: "new_events w w' =
     file_report ''src/db/sqlite/repo_test.rs'' (files w ''src/db/sqlite/repo_test.rs'') @
     file_report ''src/db/sqlite/critical_tests.rs'' (files w ''src/db/sqlite/critical_tests.rs'')"
    by (simp add: new_events_def files_to_fix_def)
  have "checked (new_events w w') = files_to_fix"
    unfolding n by (simp add: checked_append checked_file_report files_to_fix_def)
  moreover have "set (touched (new_events w w')) = set files_to_fix"
    unfolding n by (auto simp: touched_append touched_file_report files_to_fix_def)
  ultimately show "\<exists>w'. fix_repo w = Inr w' \<and> checked (new_events w w') = files_to_fix \<and>
      set (touched (new_events w w')) = set files_to_fix \<and>
      (\<forall>p. p \<notin> set files_to_fix \<longrightarrow> files w' p = files w p)"
    using r f by blast
qed

theorem hardcoded_paths_witness:
  "(files one_file_world note_path = None \<and>
    fix_note one_file_world = Inl (FileNotFoundError note_path)) \<and>
   (files round_trip_world note_path \<noteq> None \<and> ''Cargo.toml'' \<noteq> note_path \<and>
    (\<exists>w'. fix_note round_trip_world = Inr w' \<and>
       touched (new_events round_trip_world w') = [note_path, note_path] \<and>
       files w' ''Cargo.toml'' = files round_trip_world ''Cargo.toml'')) \<and>
   (''Cargo.toml'' \<notin> set files_to_fix \<and>
    (\<exists>w'. fix_repo one_file_world = Inr w' \<and>
       checked (new_events one_file_world w') = files_to_fix \<and>
       files w' ''Cargo.toml'' = files one_file_world ''Cargo.toml''))"
proof -
  have h1: "files one_file_world note_path = None"
    by (simp add: one_file_world_def note_path_def)
  have h2: "files round_trip_world note_path \<noteq> None"
    by (simp add: round_trip_world_def note_path_def)
  have h3: "''Cargo.toml'' \<noteq> note_path"
    by (simp add: note_path_def)
  have h4: "''Cargo.toml'' \<notin> set files_to_fix"
    by (simp add: files_to_fix_def)
  from hardcoded_paths[of one_file_world] h1
  have a: "fix_note one_file_world = Inl (FileNotFoundError note_path)" by blast
  from hardcoded_paths[of round_trip_world] h2 h3
  have b: "\<exists>w'. fix_note round_trip_world = Inr w' \<and>
       touched (new_events round_trip_world w') = [note_path, note_path] \<and>
       files w' ''Cargo.toml'' = files round_trip_world ''Cargo.toml''" by blast
  from hardcoded_paths[of one_file_world] h4
  have c: "\<exists>w'. fix_repo one_file_world = Inr w' \<and>
       checked (new_events one_file_world w') = files_to_fix \<and>
       files w' ''Cargo.toml'' = files one_file_world ''Cargo.toml''" by blast
  from a b c h1 h2 h3 h4 show ?thesis by blast
qed

section \<open>Applying a substitution twice\<close>

text \<open>Occurrences of a fragment, and what an insertion does to them.\<close>

lemma occurrences_ge1: "1 \<le> occurrences t (a @ t @ b)"
proof (induction a)
  case Nil
  have t: "take (length t) (t @ b) = t" by simp
  show ?case
  proof (cases "t @ b")
    case Nil
    then show ?thesis by simp
  next
    case (Cons c cs)
    with t have "take (length t) (c # cs) = t" by simp
    with Cons show ?thesis by simp
  qed
next
  case (Cons c a)
  then show ?case by simp
qed

lemma occurrences_unique:
  "occurrences t s \<le> 1 \<Longrightarrow> s = a @ t @ b \<Longrightarrow> s = a' @ t @ b' \<Longrightarrow> a = a'"
proof (induction s arbitrary: a a')
  case Nil
  then show ?case by simp
next
  case (Cons c cs)
  show ?case
  proof (cases a)
    case Nil
    note aN = Nil
    show ?thesis
    proof (cases a')
      case Nil
      with aN show ?thesis by simp
    next
      case (Cons d a'')
      with Cons.prems(3) have cs: "cs = a'' @ t @ b'" by simp
      from aN Cons.prems(2) have "take (length t) (c # cs) = t" by simp
      with Cons.prems(1) have "occurrences t cs = 0" by simp
      with occurrences_ge1[of t a'' b'] cs show ?thesis by simp
    qed
  next
    case (Cons d a1)
    note aC = Cons
    with Cons.prems(2) have cs1: "cs = a1 @ t @ b" and d: "d = c" by auto
    show ?thesis
    proof (cases a')
      case Nil
      with Cons.prems(3) have "take (length t) (c # cs) = t" by simp
      with Cons.prems(1) have "occurrences t cs = 0" by simp
      with occurrences_ge1[of t a1 b] cs1 show ?thesis by simp
    next
      case (Cons e a2)
      with Cons.prems(3) have cs2: "cs = a2 @ t @ b'" and e: "e = c" by auto
      from Cons.prems(1) have "occurrences t cs \<le> 1" by (simp split: if_splits)
      from Cons.IH[OF this cs1 cs2] aC Cons d e show ?thesis by simp
    qed
  qed
qed

lemma occ_insert:
  assumes I: "I = i # I'" "i \<notin> set T"
    and nsub: "\<not> sublist T I"
    and nover: "\<forall>z. z \<noteq> [] \<and> suffix z I \<longrightarrow> \<not> prefix z T"
    and eq: "u @ I @ v = a @ T @ b"
  shows "(\<exists>w. u = a @ T @ w) \<or> (\<exists>w. v = w @ T @ b \<and> a = u @ I @ w)"
proof -
  from eq have "u @ (I @ v) = a @ (T @ b)" by simp
  with append_eq_append_conv2[of u "I @ v" a "T @ b"]
  consider (left) us where "u = a @ us" "us @ I @ v = T @ b"
    | (right) us where "u @ us = a" "I @ v = us @ T @ b"
    by blast
  then show ?thesis
  proof cases
    case left
    from left(2) append_eq_append_conv2[of us "I @ v" T b]
    consider (l1) z where "us = T @ z" "z @ I @ v = b"
      | (l2) z where "us @ z = T" "I @ v = z @ b"
      by blast
    then show ?thesis
    proof cases
      case l1
      with left(1) show ?thesis by auto
    next
      case l2
      show ?thesis
      proof (cases z)
        case Nil
        with l2 left(1) show ?thesis by auto
      next
        case (Cons c z')
        with l2(2) I(1) have "c = i" by simp
        with Cons l2(1) have "i \<in> set T" by auto
        with I(2) show ?thesis by simp
      qed
    qed
  next
    case right
    from right(2) have "I @ v = us @ (T @ b)" by simp
    with append_eq_append_conv2[of I v us "T @ b"]
    consider (r1) z where "I = us @ z" "z @ v = T @ b"
      | (r2) z where "I @ z = us" "v = z @ T @ b"
      by blast
    then show ?thesis
    proof cases
      case r2
      with right(1) show ?thesis by auto
    next
      case r1
      from r1(2) append_eq_append_conv2[of z v T b]
      consider (r11) y where "z = T @ y" "y @ v = b"
        | (r12) y where "z @ y = T" "v = y @ b"
        by blast
      then show ?thesis
      proof cases
        case r11
        with r1(1) have "I = us @ T @ y" by simp
        then have "sublist T I" by (auto simp: sublist_def)
        with nsub show ?thesis by simp
      next
        case r12
        show ?thesis
        proof (cases "z = []")
          case True
          with r12 r1(1) right(1) show ?thesis by auto
        next
          case False
          from r1(1) have "suffix z I" by (auto simp: suffix_def)
          moreover from r12(1) have "prefix z T" by (auto simp: prefix_def)
          ultimately show ?thesis using nover False by blast
        qed
      qed
    qed
  qed
qed

lemma strip_ws_eq:
  assumes "x @ ws1 = y @ ws2" "\<forall>c\<in>set ws1. is_space c" "\<forall>c\<in>set ws2. is_space c"
    and "x \<noteq> []" "\<not> is_space (last x)" "y \<noteq> []" "\<not> is_space (last y)"
  shows "x = y"
proof -
  from assms(1) append_eq_append_conv2[of x ws1 y ws2]
  consider (1) z where "x = y @ z" "z @ ws1 = ws2"
    | (2) z where "x @ z = y" "ws1 = z @ ws2"
    by blast
  then show ?thesis
  proof cases
    case 1
    show ?thesis
    proof (cases "z = []")
      case True
      with 1 show ?thesis by simp
    next
      case False
      with 1(1) have "last x = last z" by simp
      moreover from False have "last z \<in> set z" by simp
      moreover from 1(2) have "set z \<subseteq> set ws2" by auto
      ultimately show ?thesis using assms(3,5) by auto
    qed
  next
    case 2
    show ?thesis
    proof (cases "z = []")
      case True
      with 2 show ?thesis by simp
    next
      case False
      with 2(1) have "last y = last z" by auto
      moreover from False have "last z \<in> set z" by simp
      moreover from 2(2) have "set z \<subseteq> set ws1" by auto
      ultimately show ?thesis using assms(2,7) by auto
    qed
  qed
qed


lemma re_sub_first:
  assumes "\<forall>s g. re_match rx s = Some g \<longrightarrow> fst g @ snd g \<noteq> []"
  shows "(\<forall>a b. s = a @ b \<longrightarrow> re_match rx b = None) \<or>
     (\<exists>pre g post. s = pre @ fst g @ snd g @ post \<and>
        re_match rx (fst g @ snd g @ post) = Some g \<and>
        re_sub rx repl s = pre @ repl g @ re_sub rx repl post)"
proof (induction s)
  case Nil
  have "re_match rx [] = None"
  proof (cases "re_match rx []")
    case (Some g)
    from re_match_split[OF Some] have "fst g @ snd g = []" by auto
    moreover from assms Some have "fst g @ snd g \<noteq> []" by blast
    ultimately show ?thesis by simp
  qed simp
  then show ?case by simp
next
  case (Cons c cs)
  show ?case
  proof (cases "re_match rx (c # cs)")
    case (Some g)
    let ?n = "length (fst g) + length (snd g)"
    from re_match_split[OF Some] obtain rest where s: "c # cs = fst g @ snd g @ rest" by auto
    from assms Some have "fst g @ snd g \<noteq> []" by blast
    then have ne: "?n \<noteq> 0" by auto
    from s have d: "drop ?n (c # cs) = rest" by simp
    have "re_sub rx repl (c # cs) = repl g @ re_sub rx repl (drop ?n (c # cs))"
      using Some ne by auto
    then have "re_sub rx repl (c # cs) = repl g @ re_sub rx repl rest" by (simp only: d)
    with s Some have "c # cs = [] @ fst g @ snd g @ rest \<and>
        re_match rx (fst g @ snd g @ rest) = Some g \<and>
        re_sub rx repl (c # cs) = [] @ repl g @ re_sub rx repl rest" by simp
    then show ?thesis by blast
  next
    case None
    from Cons.IH show ?thesis
    proof
      assume a: "\<forall>a b. cs = a @ b \<longrightarrow> re_match rx b = None"
      have "\<forall>a b. c # cs = a @ b \<longrightarrow> re_match rx b = None"
      proof (intro allI impI)
        fix a b assume e: "c # cs = a @ b"
        show "re_match rx b = None"
        proof (cases a)
          case Nil
          with e None show ?thesis by simp
        next
          case (Cons d a')
          with e have "cs = a' @ b" by simp
          with a show ?thesis by blast
        qed
      qed
      then show ?thesis by blast
    next
      assume "\<exists>pre g post. cs = pre @ fst g @ snd g @ post \<and>
        re_match rx (fst g @ snd g @ post) = Some g \<and>
        re_sub rx repl cs = pre @ repl g @ re_sub rx repl post"
      then obtain pre g post where "cs = pre @ fst g @ snd g @ post"
        "re_match rx (fst g @ snd g @ post) = Some g"
        "re_sub rx repl cs = pre @ repl g @ re_sub rx repl post" by blast
      with None have "c # cs = (c # pre) @ fst g @ snd g @ post \<and>
        re_match rx (fst g @ snd g @ post) = Some g \<and>
        re_sub rx repl (c # cs) = (c # pre) @ repl g @ re_sub rx repl post" by simp
      then show ?thesis by blast
    qed
  qed
qed


lemma idempotent_generic:
  assumes shape: "\<And>s g. re_match rx s = Some g \<Longrightarrow>
        \<exists>q rest. snd g = T @ q \<and> s = fst g @ T @ q @ rest \<and> Adj (fst g)"
    and repl: "\<And>g. repl g = fst g @ I @ snd g"
    and broken: "\<And>u a p. Adj p \<Longrightarrow> u @ I = a @ p \<Longrightarrow> False"
    and I: "I = i # I'" "i \<notin> set T" "\<not> sublist T I"
           "\<forall>z. z \<noteq> [] \<and> suffix z I \<longrightarrow> \<not> prefix z T"
    and T: "T \<noteq> []"
    and occ: "occurrences T x \<le> 1"
  shows "re_sub rx repl (re_sub rx repl x) = re_sub rx repl x"
proof -
  have ne: "\<forall>s g. re_match rx s = Some g \<longrightarrow> fst g @ snd g \<noteq> []"
    using shape T by fastforce
  from re_sub_first[OF ne, of x repl] show ?thesis
  proof
    assume "\<forall>a b. x = a @ b \<longrightarrow> re_match rx b = None"
    then have "re_sub rx repl x = x" by (rule re_sub_no_match)
    then show ?thesis by simp
  next
    assume "\<exists>pre g post. x = pre @ fst g @ snd g @ post \<and>
        re_match rx (fst g @ snd g @ post) = Some g \<and>
        re_sub rx repl x = pre @ repl g @ re_sub rx repl post"
    then obtain pre g post where x: "x = pre @ fst g @ snd g @ post"
      and m: "re_match rx (fst g @ snd g @ post) = Some g"
      and r: "re_sub rx repl x = pre @ repl g @ re_sub rx repl post" by blast
    from shape[OF m] obtain q where g2: "snd g = T @ q" by blast
    from x g2 have x1: "x = (pre @ fst g) @ T @ (q @ post)" by simp
    have nopost: "\<forall>a b. post = a @ b \<longrightarrow> re_match rx b = None"
    proof (intro allI impI)
      fix a b assume p: "post = a @ b"
      show "re_match rx b = None"
      proof (cases "re_match rx b")
        case (Some g')
        from shape[OF Some] obtain q' rest' where b: "b = fst g' @ T @ q' @ rest'" by blast
        with x1 p have "x = (pre @ fst g @ T @ q @ a @ fst g') @ T @ (q' @ rest')" by simp
        from occurrences_unique[OF occ x1 this] T show ?thesis by simp
      qed simp
    qed
    then have "re_sub rx repl post = post" by (rule re_sub_no_match)
    with r repl[of g] g2 have y: "re_sub rx repl x = (pre @ fst g) @ I @ (T @ q @ post)"
      by simp
    have "\<forall>a b. re_sub rx repl x = a @ b \<longrightarrow> re_match rx b = None"
    proof (intro allI impI)
      fix a b assume p: "re_sub rx repl x = a @ b"
      show "re_match rx b = None"
      proof (cases "re_match rx b")
        case (Some g')
        from shape[OF Some] obtain q' rest' where b: "b = fst g' @ T @ q' @ rest'"
          and adj: "Adj (fst g')" by blast
        from y p b have "(pre @ fst g) @ I @ (T @ q @ post) = (a @ fst g') @ T @ (q' @ rest')"
          by simp
        from occ_insert[OF I this]
        show ?thesis
        proof
          assume "\<exists>w. pre @ fst g = (a @ fst g') @ T @ w"
          then obtain w where w: "pre @ fst g = (a @ fst g') @ T @ w" by blast
          with x1 have "x = (a @ fst g') @ T @ (w @ T @ q @ post)" by simp
          from occurrences_unique[OF occ x1 this] w T show ?thesis by simp
        next
          assume "\<exists>w. T @ q @ post = w @ T @ q' @ rest' \<and> a @ fst g' = (pre @ fst g) @ I @ w"
          then obtain w where w1: "T @ q @ post = w @ T @ q' @ rest'"
            and w2: "a @ fst g' = (pre @ fst g) @ I @ w" by blast
          from x1 w1 have "x = (pre @ fst g @ w) @ T @ (q' @ rest')" by simp
          from occurrences_unique[OF occ x1 this] have "w = []" by simp
          with w2 have "(pre @ fst g) @ I = a @ fst g'" by simp
          from broken[OF adj this] show ?thesis by simp
        qed
      qed simp
    qed
    then show ?thesis by (rule re_sub_no_match)
  qed
qed

text \<open>The inserted field ends the adjacency the Note pattern needs.\<close>

lemma inserted_ws:
  "\<forall>c\<in>set (LF # replicate 20 SP). is_space c" "\<forall>c\<in>set (LF # replicate 8 SP). is_space c"
  by (simp_all add: is_space_def LF_def SP_def)

lemma field_last: "project_ids_field \<noteq> []" "\<not> is_space (last project_ids_field)"
  "last project_ids_field = of_char CHR ''y''"
  by code_simp+

lemma note_type_last: "str ''note_type,'' \<noteq> []" "last (str ''note_type,'') = of_char CHR '',''"
  "\<not> is_space (of_char CHR '','')"
  by code_simp+

lemma note_adjacency_broken:
  assumes "u @ note_inserted = a @ str ''Note {'' @ A @ str ''note_type,'' @ W"
    and "\<forall>c\<in>set W. is_space c"
  shows False
proof -
  let ?x = "u @ project_ids_field" and ?y = "a @ str ''Note {'' @ A @ str ''note_type,''"
  from assms(1) have e: "?x @ (LF # replicate 20 SP) = ?y @ W"
    by (simp add: note_inserted_def)
  have lx: "last ?x = last project_ids_field" using field_last(1) by simp
  have ly: "last ?y = last (str ''note_type,'')" using note_type_last(1) by simp
  have "?x = ?y"
    by (rule strip_ws_eq[OF e inserted_ws(1) assms(2)])
       (use field_last note_type_last lx ly in simp_all)
  then have "last ?x = last ?y" by simp
  with lx ly field_last(3) note_type_last(2) show False by simp
qed

lemma overlapsI: "suffix z i \<Longrightarrow> z \<noteq> [] \<Longrightarrow> prefix z t \<Longrightarrow> overlaps t i"
proof (induction i)
  case Nil
  then show ?case by simp
next
  case (Cons c cs)
  from Cons.prems(1) have "z = c # cs \<or> suffix z cs" by (simp add: suffix_Cons)
  with Cons show ?case by auto
qed

lemma note_inserted_facts:
  "note_inserted = hd note_inserted # tl note_inserted"
  "hd note_inserted \<notin> set created_at_lit"
  "\<not> sublist created_at_lit note_inserted"
  "\<not> overlaps created_at_lit note_inserted"
  "created_at_lit \<noteq> []"
  by code_simp+

lemma note_no_overlap: "\<forall>z. z \<noteq> [] \<and> suffix z note_inserted \<longrightarrow> \<not> prefix z created_at_lit"
  using note_inserted_facts(4) overlapsI by blast

lemma note_match_adj:
  assumes "re_match note_pattern s = Some g"
  shows "\<exists>q rest. snd g = created_at_lit @ q \<and> s = fst g @ created_at_lit @ q @ rest \<and>
     (\<exists>A W. fst g = str ''Note {'' @ A @ str ''note_type,'' @ W \<and> (\<forall>c\<in>set W. is_space c))"
proof -
  from assms have "re_match note_pattern s = Some (fst g, snd g)" by simp
  from note_match_shape[OF this] obtain A W rest where
    "fst g = str ''Note {'' @ A @ str ''note_type,'' @ W" "snd g = created_at_lit"
    "s = fst g @ snd g @ rest" "\<forall>c\<in>set W. is_space c" by blast
  then have "snd g = created_at_lit @ [] \<and> s = fst g @ created_at_lit @ [] @ rest \<and>
     (\<exists>A W. fst g = str ''Note {'' @ A @ str ''note_type,'' @ W \<and> (\<forall>c\<in>set W. is_space c))"
    by auto
  then show ?thesis by blast
qed

lemma note_replace_func_inserted: "note_replace_func g = fst g @ note_inserted @ snd g"
  using note_replace_func_eq[of "fst g" "snd g"] by (simp add: note_inserted_def)

section \<open>fix\_note.py applied twice\<close>

text \<open>
  Two assignments after \<open>note_type,\<close> with no closing brace between them: the greedy
  star reaches the second one in the first pass, and the first one in the second pass.
  One application inserts one field, two applications insert two.
\<close>

theorem note_twice_counterexample:
  "re_sub note_pattern note_replace_func (re_sub note_pattern note_replace_func two_notes) \<noteq>
     re_sub note_pattern note_replace_func two_notes \<and>
   occurrences (str ''project_ids'') (re_sub note_pattern note_replace_func two_notes) = 1 \<and>
   occurrences (str ''project_ids'')
     (re_sub note_pattern note_replace_func (re_sub note_pattern note_replace_func two_notes)) = 2"
  by code_simp

text \<open>
  A match never contains a closing brace, so the Note pattern sees each brace-free
  stretch of the text on its own, and so does the substitution.
\<close>

lemma split_on_nonempty: "split_on sep s \<noteq> []"
  by (induction s) (auto split: list.splits)

lemma split_on_nosep: "sep \<notin> set s \<Longrightarrow> split_on sep s = [s]"
  by (induction s) auto

lemma split_on_append: "sep \<notin> set s \<Longrightarrow> split_on sep (s @ sep # r) = s # split_on sep r"
  by (induction s) auto

lemma lit_local:
  assumes "c \<notin> set l" "c \<notin> set s"
  shows "(take (length l) (s @ c # r) = l) = (take (length l) s = l)"
proof (cases "length l \<le> length s")
  case True
  then show ?thesis by simp
next
  case False
  then obtain k where k: "length l = length s + Suc k"
    by (metis add_Suc_right less_imp_Suc_add not_le)
  then have "take (length l) (s @ c # r) = s @ c # take k r" by simp
  with assms(1) have "take (length l) (s @ c # r) \<noteq> l" by (metis in_set_conv_decomp)
  moreover have "take (length l) s \<noteq> l"
  proof
    assume "take (length l) s = l"
    then have "length (take (length l) s) = length l" by simp
    with k show False by simp
  qed
  ultimately show ?thesis by simp
qed

lemma lit_drop:
  assumes "take (length l) s = l"
  shows "drop (length l) (s @ c # r) = drop (length l) s @ c # r"
proof -
  have "length (take (length l) s) = length l" by (simp only: assms)
  then have "length l \<le> length s" by simp
  then show ?thesis by simp
qed

lemma match_items_local:
  "list_all (avoids c) pat \<Longrightarrow> c \<notin> set s \<Longrightarrow> match_items pat (s @ c # r) = match_items pat s"
proof (induction pat s rule: match_items.induct)
  case (1 s)
  then show ?case by simp
next
  case (2 l rest s)
  from "2.prems" have cl: "c \<notin> set l" and ar: "list_all (avoids c) rest" by simp_all
  show ?case
  proof (cases "take (length l) s = l")
    case True
    from "2.prems"(2) have "c \<notin> set (drop (length l) s)" by (meson in_set_dropD)
    from "2.IH"[OF True ar this] lit_local[OF cl "2.prems"(2), of r] lit_drop[OF True, of c r] True
    show ?thesis by simp
  next
    case False
    with lit_local[OF cl "2.prems"(2), of r] show ?thesis by simp
  qed
next
  case (3 l rest s)
  from "3.prems" have cl: "c \<notin> set l" and ar: "list_all (avoids c) rest" by simp_all
  let ?inner = "\<lambda>t. if take (length l) t = l
            then map_option ((#) l) (match_items rest (drop (length l) t)) else None"
  have inner: "?inner (s @ c # r) = ?inner s"
  proof (cases "take (length l) s = l")
    case True
    from "3.prems"(2) have "c \<notin> set (drop (length l) s)" by (meson in_set_dropD)
    from "3.IH"(1)[OF True ar this] lit_local[OF cl "3.prems"(2), of r]
      lit_drop[OF True, of c r] True
    show ?thesis by simp
  next
    case False
    with lit_local[OF cl "3.prems"(2), of r] show ?thesis by simp
  qed
  show ?case
  proof (cases "?inner s")
    case None
    from "3.IH"(2)[OF None ar "3.prems"(2)] None inner show ?thesis by simp
  next
    case (Some ps)
    with inner show ?thesis by simp
  qed
next
  case (4 p rest)
  from "4.prems" have pc: "\<not> p c" and ar: "list_all (avoids c) rest" by simp_all
  from "4.IH"[OF ar] pc show ?case by simp
next
  case (5 p rest d ds)
  from "5.prems" have pc: "\<not> p c" and ar: "list_all (avoids c) rest"
    and cd: "c \<noteq> d" and cds: "c \<notin> set ds" by auto
  let ?inner = "\<lambda>t. if p d then match_items (Star p # rest) t else None"
  have inner: "?inner (ds @ c # r) = ?inner ds"
  proof (cases "p d")
    case True
    from "5.IH"(1)[OF True "5.prems"(1) cds] show ?thesis by simp
  next
    case False
    then show ?thesis by simp
  qed
  show ?case
  proof (cases "?inner ds")
    case None
    from "5.IH"(2)[OF None ar "5.prems"(2)] None inner show ?thesis by simp
  next
    case (Some ps)
    with inner show ?thesis by simp
  qed
qed

lemma note_pattern_avoids:
  "list_all (avoids (of_char CHR ''}'')) (fst note_pattern @ snd note_pattern)"
  by code_simp

lemma note_match_local:
  "of_char CHR ''}'' \<notin> set s \<Longrightarrow>
   re_match note_pattern (s @ of_char CHR ''}'' # r) = re_match note_pattern s"
  using match_items_local[OF note_pattern_avoids] by (simp add: re_match_def)

lemma note_match_Nil: "re_match note_pattern [] = None"
  by code_simp

lemma note_match_nonempty:
  assumes "re_match note_pattern s = Some g"
  shows "length (fst g) + length (snd g) \<noteq> 0"
proof -
  from note_match_adj[OF assms] note_inserted_facts(5) show ?thesis by auto
qed

lemma note_sub_local:
  "of_char CHR ''}'' \<notin> set s \<Longrightarrow>
   re_sub note_pattern note_replace_func (s @ of_char CHR ''}'' # r) =
   re_sub note_pattern note_replace_func s @ of_char CHR ''}'' # re_sub note_pattern note_replace_func r"
proof (induction "length s" arbitrary: s rule: less_induct)
  case less
  let ?b = "of_char CHR ''}'' :: codepoint"
  show ?case
  proof (cases s)
    case Nil
    from note_match_local[of "[]" r] note_match_Nil
    have "re_match note_pattern (?b # r) = None" by simp
    with Nil note_match_Nil show ?thesis by simp
  next
    case (Cons c cs)
    from less.prems Cons have nb: "?b \<notin> set cs" by simp
    from note_match_local[OF less.prems, of r] Cons
    have m: "re_match note_pattern (c # cs @ ?b # r) = re_match note_pattern (c # cs)" by simp
    show ?thesis
    proof (cases "re_match note_pattern (c # cs)")
      case None
      from less.hyps[of cs, OF _ nb] Cons
      have "re_sub note_pattern note_replace_func (cs @ ?b # r) =
        re_sub note_pattern note_replace_func cs @ ?b # re_sub note_pattern note_replace_func r"
        by simp
      with None m Cons show ?thesis by simp
    next
      case (Some g)
      let ?n = "length (fst g) + length (snd g)"
      from note_match_nonempty[OF Some] have ne: "?n \<noteq> 0" .
      from re_match_split[OF Some] obtain rest where s: "c # cs = fst g @ snd g @ rest" by auto
      then have d1: "drop ?n (c # cs) = rest" by simp
      from s have "(c # cs) @ ?b # r = fst g @ snd g @ (rest @ ?b # r)" by simp
      then have "drop ?n ((c # cs) @ ?b # r) = rest @ ?b # r"
        by (metis add.commute append_eq_conv_conj drop_drop)
      then have d2: "drop ?n (c # cs @ ?b # r) = rest @ ?b # r" by simp
      from s have "length (c # cs) = ?n + length rest"
        by (metis add.assoc length_append)
      with ne Cons have lr: "length rest < length s" by simp
      from less.prems have "?b \<notin> set (fst g @ snd g @ rest)" unfolding Cons s .
      then have nr: "?b \<notin> set rest" by simp
      have a: "re_sub note_pattern note_replace_func (c # cs @ ?b # r) =
          note_replace_func g @ re_sub note_pattern note_replace_func (drop ?n (c # cs @ ?b # r))"
        using Some m ne by auto
      have b: "re_sub note_pattern note_replace_func (c # cs) =
          note_replace_func g @ re_sub note_pattern note_replace_func (drop ?n (c # cs))"
        using Some ne by auto
      from a b less.hyps[OF lr nr] Cons show ?thesis by (simp only: d1 d2 append_Cons append_assoc)
    qed
  qed
qed


lemma note_sub_brace_free:
  "of_char CHR ''}'' \<notin> set s \<Longrightarrow>
   of_char CHR ''}'' \<notin> set (re_sub note_pattern note_replace_func s)"
proof (induction "length s" arbitrary: s rule: less_induct)
  case less
  let ?b = "of_char CHR ''}'' :: codepoint"
  let ?sub = "re_sub note_pattern note_replace_func"
  show ?case
  proof (cases s)
    case Nil
    with note_match_Nil show ?thesis by simp
  next
    case (Cons c cs)
    from less.prems Cons have nb: "?b \<notin> set cs" and nc: "?b \<noteq> c" by auto
    show ?thesis
    proof (cases "re_match note_pattern (c # cs)")
      case None
      then have "?sub (c # cs) = c # ?sub cs" by simp
      moreover from less.hyps[of cs, OF _ nb] Cons have "?b \<notin> set (?sub cs)" by simp
      ultimately show ?thesis using nc Cons by simp
    next
      case (Some g)
      let ?n = "length (fst g) + length (snd g)"
      from note_match_nonempty[OF Some] have ne: "?n \<noteq> 0" .
      from re_match_split[OF Some] obtain rest where s: "c # cs = fst g @ snd g @ rest" by auto
      then have d1: "drop ?n (c # cs) = rest" by simp
      from s have "length (c # cs) = ?n + length rest"
        by (metis add.assoc length_append)
      with ne Cons have lr: "length rest < length s" by simp
      from less.prems have "?b \<notin> set (fst g @ snd g @ rest)" unfolding Cons s .
      then have nr: "?b \<notin> set rest" and ng: "?b \<notin> set (fst g)" "?b \<notin> set (snd g)"
        by simp_all
      have "?b \<notin> set note_inserted" by code_simp
      with ng have g: "?b \<notin> set (note_replace_func g)"
        by (simp add: note_replace_func_inserted)
      have "?sub (c # cs) = note_replace_func g @ ?sub (drop ?n (c # cs))"
        using Some ne by auto
      then have "?sub (c # cs) = note_replace_func g @ ?sub rest" by (simp only: d1)
      moreover from less.hyps[OF lr nr] have "?b \<notin> set (?sub rest)" .
      ultimately have "?b \<notin> set (?sub (c # cs))" using g by (simp only: set_append Un_iff) blast
      then show ?thesis unfolding Cons .
    qed
  qed
qed

lemma note_idem_single:
  assumes occ: "occurrences created_at_lit content \<le> 1"
  shows "re_sub note_pattern note_replace_func (re_sub note_pattern note_replace_func content) =
      re_sub note_pattern note_replace_func content"
proof (rule idempotent_generic[where T = created_at_lit and I = note_inserted
        and Adj = "\<lambda>p. \<exists>A W. p = str ''Note {'' @ A @ str ''note_type,'' @ W \<and> (\<forall>c\<in>set W. is_space c)"])
  show "\<exists>q rest. snd g = created_at_lit @ q \<and> s = fst g @ created_at_lit @ q @ rest \<and>
        (\<exists>A W. fst g = str ''Note {'' @ A @ str ''note_type,'' @ W \<and> (\<forall>c\<in>set W. is_space c))"
    if "re_match note_pattern s = Some g" for s g
    using that by (rule note_match_adj)
  show "note_replace_func g = fst g @ note_inserted @ snd g" for g
    by (rule note_replace_func_inserted)
  show False if "\<exists>A W. p = str ''Note {'' @ A @ str ''note_type,'' @ W \<and> (\<forall>c\<in>set W. is_space c)"
      "u @ note_inserted = a @ p" for u a p
    using that note_adjacency_broken by blast
  show "note_inserted = hd note_inserted # tl note_inserted" by (rule note_inserted_facts(1))
  show "hd note_inserted \<notin> set created_at_lit" by (rule note_inserted_facts(2))
  show "\<not> sublist created_at_lit note_inserted" by (rule note_inserted_facts(3))
  show "\<forall>z. z \<noteq> [] \<and> suffix z note_inserted \<longrightarrow> \<not> prefix z created_at_lit"
    by (rule note_no_overlap)
  show "created_at_lit \<noteq> []" by (rule note_inserted_facts(5))
  show "occurrences created_at_lit content \<le> 1" by (rule occ)
qed

lemma note_idem_segments:
  "list_all (\<lambda>seg. occurrences created_at_lit seg \<le> 1) (split_on (of_char CHR ''}'') x) \<Longrightarrow>
   re_sub note_pattern note_replace_func (re_sub note_pattern note_replace_func x) =
   re_sub note_pattern note_replace_func x"
proof (induction "length x" arbitrary: x rule: less_induct)
  case less
  let ?b = "of_char CHR ''}'' :: codepoint"
  let ?sub = "re_sub note_pattern note_replace_func"
  show ?case
  proof (cases "?b \<in> set x")
    case False
    with less.prems have "occurrences created_at_lit x \<le> 1" by (simp add: split_on_nosep)
    then show ?thesis by (rule note_idem_single)
  next
    case True
    from split_list_first[OF True] obtain s r where x: "x = s @ ?b # r" and ns: "?b \<notin> set s"
      by blast
    from less.prems x ns have os: "occurrences created_at_lit s \<le> 1"
      and hr: "list_all (\<lambda>seg. occurrences created_at_lit seg \<le> 1) (split_on ?b r)"
      by (simp_all add: split_on_append)
    from x have "length r < length x" by simp
    from less.hyps[OF this hr] have ir: "?sub (?sub r) = ?sub r" .
    from note_idem_single[OF os] have iss: "?sub (?sub s) = ?sub s" .
    from note_sub_local[OF ns, of r] x have 1: "?sub x = ?sub s @ ?b # ?sub r" by simp
    from note_sub_local[OF note_sub_brace_free[OF ns], of "?sub r"]
    have "?sub (?sub s @ ?b # ?sub r) = ?sub (?sub s) @ ?b # ?sub (?sub r)" .
    with 1 ir iss show ?thesis by (simp only:)
  qed
qed

text \<open>
  C4 (amended). For every input, no match of the Note pattern has the inserted field
  directly before its \<open>created_at\<close> assignment: the field breaks the adjacency of
  \<open>note_type,\<close> and the assignment, so an assignment that received the field is never
  given a second one. For every input in which no brace-free stretch (the text between
  two closing braces, or before the first, or after the last) holds more than one
  occurrence of the fragment \<open>created_at: row.get("created_at"),\<close>, the substitution is
  idempotent: applied to its own output it changes nothing.
\<close>

theorem note_idempotent:
  "(re_match note_pattern s = Some (g1, g2) \<longrightarrow> \<not> suffix note_inserted g1) \<and>
   (list_all (\<lambda>seg. occurrences created_at_lit seg \<le> 1) (split_on (of_char CHR ''}'') content) \<longrightarrow>
      re_sub note_pattern note_replace_func (re_sub note_pattern note_replace_func content) =
      re_sub note_pattern note_replace_func content)"
proof (intro conjI impI)
  assume m: "re_match note_pattern s = Some (g1, g2)"
  show "\<not> suffix note_inserted g1"
  proof
    assume "suffix note_inserted g1"
    then obtain u where u: "g1 = u @ note_inserted" by (auto simp: suffix_def)
    from note_match_shape[OF m] obtain A W where
      "g1 = str ''Note {'' @ A @ str ''note_type,'' @ W" "\<forall>c\<in>set W. is_space c" by blast
    with u have "u @ note_inserted = [] @ str ''Note {'' @ A @ str ''note_type,'' @ W"
      and "\<forall>c\<in>set W. is_space c" by simp_all
    then show False by (rule note_adjacency_broken)
  qed
next
  assume "list_all (\<lambda>seg. occurrences created_at_lit seg \<le> 1)
            (split_on (of_char CHR ''}'') content)"
  then show "re_sub note_pattern note_replace_func (re_sub note_pattern note_replace_func content) =
      re_sub note_pattern note_replace_func content"
    by (rule note_idem_segments)
qed

theorem note_idempotent_witness:
  "re_match note_pattern shorthand_example =
     Some (str ''Note { id: 1, note_type, '', created_at_lit) \<and>
   \<not> suffix note_inserted (str ''Note { id: 1, note_type, '') \<and>
   list_all (\<lambda>seg. occurrences created_at_lit seg \<le> 1)
     (split_on (of_char CHR ''}'') closed_notes) \<and>
   length (re_finditer note_pattern closed_notes) = 2 \<and>
   re_sub note_pattern note_replace_func (re_sub note_pattern note_replace_func closed_notes) =
     re_sub note_pattern note_replace_func closed_notes"
proof -
  have h1: "re_match note_pattern shorthand_example =
     Some (str ''Note { id: 1, note_type, '', created_at_lit)"
    by code_simp
  have h2: "list_all (\<lambda>seg. occurrences created_at_lit seg \<le> 1)
     (split_on (of_char CHR ''}'') closed_notes)"
    by code_simp
  have h3: "length (re_finditer note_pattern closed_notes) = 2"
    by code_simp
  from note_idempotent[of shorthand_example "str ''Note { id: 1, note_type, ''"
      created_at_lit closed_notes] h1 h2 h3
  show ?thesis by blast
qed

section \<open>fix\_repo.py applied twice\<close>













end
